theory Spec2Isabelle
  imports Main "HOL-Library.Multiset"
begin

section \<open>Results of Go code: values, panics, non-termination\<close>

text \<open>
  A Go function either returns, panics (the only panic in this code is a nil pointer
  dereference), or does not return at all. A result is therefore an optional sum:
  \<open>None\<close> is "does not return", \<open>Some (Inl NilDeref)\<close> is the panic and
  \<open>Some (Inr x)\<close> is the returned value.
\<close>

type_synonym addr = nat

datatype panic = NilDeref

type_synonym 'a res = "(panic + 'a) option"

definition ok :: "'a \<Rightarrow> 'a res" where
  "ok x = Some (Inr x)"

definition nil_panic :: "'a res" where
  "nil_panic = Some (Inl NilDeref)"

definition bindR :: "'a res \<Rightarrow> ('a \<Rightarrow> 'b res) \<Rightarrow> 'b res" where
  "bindR m f = (case m of None \<Rightarrow> None
                | Some r \<Rightarrow> (case r of Inl e \<Rightarrow> Some (Inl e) | Inr x \<Rightarrow> f x))"

lemma bindR_mono [partial_function_mono]:
  assumes "mono_option B" and "\<And>y. mono_option (C y)"
  shows "mono_option (\<lambda>f. bindR (B f) (\<lambda>y. C y f))"
proof -
  have eq: "\<And>m g. bindR m g =
      Option.bind m (\<lambda>r. case r of Inl e \<Rightarrow> Some (Inl e) | Inr x \<Rightarrow> g x)"
    by (simp add: bindR_def split: option.splits)
  have "\<And>y. mono_option (\<lambda>f. case y of Inl e \<Rightarrow> Some (Inl e) | Inr x \<Rightarrow> C x f)"
    subgoal for y by (cases y) (simp_all add: assms option.const_mono)
    done
  then show ?thesis unfolding eq
    by (intro partial_function_mono assms)
qed

section \<open>Nodes and the node store\<close>

text \<open>
  \<open>Node[K, V]\<close>: three links, a colour, a key and a value. A pointer \<open>*Node\<close> is an
  optional address, \<open>None\<close> being \<open>nil\<close>. The Go heap holding the nodes is a partial map
  from addresses to nodes. Colours are booleans as in the source: \<open>RED = false\<close>,
  \<open>BLACK = true\<close>.
\<close>

record ('k, 'v) Node =
  parent :: "addr option"
  left :: "addr option"
  right :: "addr option"
  color :: bool
  key :: 'k
  val :: 'v

type_synonym ('k, 'v) heap = "addr \<Rightarrow> ('k, 'v) Node option"

abbreviation RED :: bool where "RED \<equiv> False"
abbreviation BLACK :: bool where "BLACK \<equiv> True"

text \<open>
  Reading the field \<open>f\<close> through pointer \<open>p\<close> (\<open>p.f\<close>) panics when \<open>p\<close> is nil. An
  address outside the store cannot arise in Go; the model treats it like nil.
\<close>

definition fld :: "(('k, 'v) Node \<Rightarrow> 'a) \<Rightarrow> ('k, 'v) heap \<Rightarrow> addr option \<Rightarrow> 'a res" where
  "fld f h p = (case p of None \<Rightarrow> nil_panic
                | Some a \<Rightarrow> (case h a of None \<Rightarrow> nil_panic | Some n \<Rightarrow> ok (f n)))"

text \<open>Writing through pointer \<open>p\<close>: the node at \<open>p\<close> is replaced by \<open>g\<close> of it.\<close>

definition store :: "(('k, 'v) Node \<Rightarrow> ('k, 'v) Node) \<Rightarrow> ('k, 'v) heap \<Rightarrow> addr option
    \<Rightarrow> ('k, 'v) heap res" where
  "store g h p = (case p of None \<Rightarrow> nil_panic
                  | Some a \<Rightarrow> (case h a of None \<Rightarrow> nil_panic | Some n \<Rightarrow> ok (h(a \<mapsto> g n))))"

definition Node_Key :: "('k, 'v) heap \<Rightarrow> addr option \<Rightarrow> 'k res" where
  "Node_Key h n = fld key h n"

definition Node_Value :: "('k, 'v) heap \<Rightarrow> addr option \<Rightarrow> 'v res" where
  "Node_Value h n = fld val h n"

definition Node_SetValue :: "('k, 'v) heap \<Rightarrow> addr option \<Rightarrow> 'v \<Rightarrow> ('k, 'v) heap res" where
  "Node_SetValue h n v = store (\<lambda>x. x\<lparr>val := v\<rparr>) h n"

text \<open>\<open>minimum\<close>: \<open>for n.left != nil { n = n.left }; return n\<close>.\<close>

partial_function (option) minimum :: "('k, 'v) heap \<Rightarrow> addr option \<Rightarrow> addr option res" where
  "minimum h n = bindR (fld left h n) (\<lambda>l. if l \<noteq> None then minimum h l else ok n)"

declare minimum.simps [code]

text \<open>\<open>maximum\<close>: \<open>for n.right != nil { n = n.right }; return n\<close>.\<close>

partial_function (option) maximum :: "('k, 'v) heap \<Rightarrow> addr option \<Rightarrow> addr option res" where
  "maximum h n = bindR (fld right h n) (\<lambda>r. if r \<noteq> None then maximum h r else ok n)"

declare maximum.simps [code]

text \<open>
  \<open>successor\<close>. The loop \<open>for y != nil && x == y.right { x = y; y = x.parent }\<close> is
  \<open>successor_loop\<close>; it returns the final \<open>y\<close>.
\<close>

partial_function (option) successor_loop ::
    "('k, 'v) heap \<Rightarrow> addr option \<Rightarrow> addr option \<Rightarrow> addr option res" where
  "successor_loop h x y =
     (if y = None then ok y
      else bindR (fld right h y) (\<lambda>yr.
             if x = yr then bindR (fld parent h y) (\<lambda>yp. successor_loop h y yp)
             else ok y))"

declare successor_loop.simps [code]

definition successor :: "('k, 'v) heap \<Rightarrow> addr option \<Rightarrow> addr option res" where
  "successor h x =
     bindR (fld right h x) (\<lambda>r.
       if r \<noteq> None then minimum h r
       else bindR (fld parent h x) (\<lambda>y. successor_loop h x y))"

text \<open>
  \<open>presuccessor\<close>. The loop \<open>for x.parent != nil && x.parent.left == x { x = x.parent }\<close>
  is \<open>presuccessor_loop\<close>; it returns the final \<open>x\<close>.
\<close>

partial_function (option) presuccessor_loop ::
    "('k, 'v) heap \<Rightarrow> addr option \<Rightarrow> addr option res" where
  "presuccessor_loop h x =
     bindR (fld parent h x) (\<lambda>p.
       if p = None then ok x
       else bindR (fld left h p) (\<lambda>pl.
              if pl = x then presuccessor_loop h p else ok x))"

declare presuccessor_loop.simps [code]

definition presuccessor :: "('k, 'v) heap \<Rightarrow> addr option \<Rightarrow> addr option res" where
  "presuccessor h x =
     bindR (fld left h x) (\<lambda>l.
       if l \<noteq> None then maximum h l
       else bindR (fld parent h x) (\<lambda>p.
              if p \<noteq> None then
                bindR (fld right h p) (\<lambda>pr.
                  if pr = x then ok p
                  else bindR (presuccessor_loop h x) (\<lambda>x'. fld parent h x'))
              else ok None))"

definition Node_Next :: "('k, 'v) heap \<Rightarrow> addr option \<Rightarrow> addr option res" where
  "Node_Next h n = successor h n"

definition Node_Prev :: "('k, 'v) heap \<Rightarrow> addr option \<Rightarrow> addr option res" where
  "Node_Prev h n = presuccessor h n"

section \<open>The iterator\<close>

text \<open>
  \<open>RbTreeIterator\<close> holds one node pointer. \<open>Next\<close> and \<open>Prev\<close> assign to the iterator's
  field and return the iterator; the model returns the updated iterator.
\<close>

record RbTreeIterator =
  node :: "addr option"

definition NewIterator :: "addr option \<Rightarrow> RbTreeIterator" where
  "NewIterator n = \<lparr>node = n\<rparr>"

definition IsValid :: "RbTreeIterator \<Rightarrow> bool" where
  "IsValid iter = (node iter \<noteq> None)"

definition Next :: "('k, 'v) heap \<Rightarrow> RbTreeIterator \<Rightarrow> RbTreeIterator res" where
  "Next h iter =
     (if IsValid iter then bindR (Node_Next h (node iter)) (\<lambda>n. ok (iter\<lparr>node := n\<rparr>))
      else ok iter)"

definition Prev :: "('k, 'v) heap \<Rightarrow> RbTreeIterator \<Rightarrow> RbTreeIterator res" where
  "Prev h iter =
     (if IsValid iter then bindR (Node_Prev h (node iter)) (\<lambda>n. ok (iter\<lparr>node := n\<rparr>))
      else ok iter)"

definition Key :: "('k, 'v) heap \<Rightarrow> RbTreeIterator \<Rightarrow> 'k res" where
  "Key h iter = Node_Key h (node iter)"

definition Value :: "('k, 'v) heap \<Rightarrow> RbTreeIterator \<Rightarrow> 'v res" where
  "Value h iter = Node_Value h (node iter)"

text \<open>
  Go error values: \<open>ErrorNotFound\<close> and the error built by \<open>IsRbTree\<close> from the number
  of the violated property. \<open>SetValue\<close> returns the error \<open>nil\<close>, here \<open>None\<close>, next to
  the store it has written.
\<close>

datatype go_error = ErrorNotFound | ViolateProperty int

definition SetValue :: "('k, 'v) heap \<Rightarrow> RbTreeIterator \<Rightarrow> 'v
    \<Rightarrow> (('k, 'v) heap \<times> go_error option) res" where
  "SetValue h iter v = bindR (Node_SetValue h (node iter) v) (\<lambda>h'. ok (h', None))"

definition Clone :: "RbTreeIterator \<Rightarrow> RbTreeIterator" where
  "Clone iter = NewIterator (node iter)"

text \<open>
  \<open>Equal\<close> takes any \<open>ConstIterator\<close>; the type assertion to \<open>*RbTreeIterator\<close> fails for
  an iterator of another container.
\<close>

datatype ConstIterator = IsRbTreeIterator RbTreeIterator | OtherIterator

definition Equal :: "RbTreeIterator \<Rightarrow> ConstIterator \<Rightarrow> bool" where
  "Equal iter other =
     (case other of OtherIterator \<Rightarrow> False
      | IsRbTreeIterator otherIter \<Rightarrow> (if node otherIter = node iter then True else False))"

section \<open>The tree\<close>

text \<open>
  \<open>RbTree\<close> has the fields \<open>root\<close>, \<open>size\<close> (here \<open>tsize\<close>) and \<open>keyCmp\<close>. The state of
  the model adds the node store and the next address that \<open>&Node{...}\<close> will hand out,
  so that a method of the tree is a function from states to states. The Go \<open>int\<close> of
  \<open>size\<close> is an unbounded integer here: it counts allocated nodes and cannot wrap
  before memory is exhausted.
\<close>

record ('k, 'v) RbTree =
  heap :: "('k, 'v) heap"
  nxt :: addr
  root :: "addr option"
  tsize :: int
  keyCmp :: "'k \<Rightarrow> 'k \<Rightarrow> int"

definition upd :: "(('k, 'v) Node \<Rightarrow> ('k, 'v) Node) \<Rightarrow> ('k, 'v) RbTree \<Rightarrow> addr option
    \<Rightarrow> ('k, 'v) RbTree res" where
  "upd g t p = bindR (store g (heap t) p) (\<lambda>h'. ok (t\<lparr>heap := h'\<rparr>))"

definition New :: "('k \<Rightarrow> 'k \<Rightarrow> int) \<Rightarrow> ('k, 'v) RbTree" where
  "New cmp = \<lparr>heap = Map.empty, nxt = 0, root = None, tsize = 0, keyCmp = cmp\<rparr>"

definition Clear :: "('k, 'v) RbTree \<Rightarrow> ('k, 'v) RbTree" where
  "Clear t = t\<lparr>root := None, tsize := 0\<rparr>"

definition First :: "('k, 'v) RbTree \<Rightarrow> addr option res" where
  "First t = (if root t = None then ok None else minimum (heap t) (root t))"

definition Last :: "('k, 'v) RbTree \<Rightarrow> addr option res" where
  "Last t = (if root t = None then ok None else maximum (heap t) (root t))"

definition IterFirst :: "('k, 'v) RbTree \<Rightarrow> RbTreeIterator res" where
  "IterFirst t = bindR (First t) (\<lambda>n. ok (NewIterator n))"

definition IterLast :: "('k, 'v) RbTree \<Rightarrow> RbTreeIterator res" where
  "IterLast t = bindR (Last t) (\<lambda>n. ok (NewIterator n))"


definition Size :: "('k, 'v) RbTree \<Rightarrow> int" where
  "Size t = tsize t"

definition getColor :: "('k, 'v) heap \<Rightarrow> addr option \<Rightarrow> bool res" where
  "getColor h n = (if n = None then ok BLACK else fld color h n)"

subsection \<open>Rotations\<close>

definition leftRotate :: "('k, 'v) RbTree \<Rightarrow> addr option \<Rightarrow> ('k, 'v) RbTree res" where
  "leftRotate t x =
     bindR (fld right (heap t) x) (\<lambda>y.
     bindR (fld left (heap t) y) (\<lambda>yl.
     bindR (upd (\<lambda>n. n\<lparr>right := yl\<rparr>) t x) (\<lambda>t.
     bindR (fld left (heap t) y) (\<lambda>yl.
     bindR (if yl \<noteq> None then upd (\<lambda>n. n\<lparr>parent := x\<rparr>) t yl else ok t) (\<lambda>t.
     bindR (fld parent (heap t) x) (\<lambda>xp.
     bindR (upd (\<lambda>n. n\<lparr>parent := xp\<rparr>) t y) (\<lambda>t.
     bindR (fld parent (heap t) x) (\<lambda>xp.
     bindR (if xp = None then ok (t\<lparr>root := y\<rparr>)
            else bindR (fld left (heap t) xp) (\<lambda>xpl.
                   if x = xpl then upd (\<lambda>n. n\<lparr>left := y\<rparr>) t xp
                   else upd (\<lambda>n. n\<lparr>right := y\<rparr>) t xp)) (\<lambda>t.
     bindR (upd (\<lambda>n. n\<lparr>left := x\<rparr>) t y) (\<lambda>t.
     upd (\<lambda>n. n\<lparr>parent := y\<rparr>) t x))))))))))"

definition rightRotate :: "('k, 'v) RbTree \<Rightarrow> addr option \<Rightarrow> ('k, 'v) RbTree res" where
  "rightRotate t x =
     bindR (fld left (heap t) x) (\<lambda>y.
     bindR (fld right (heap t) y) (\<lambda>yr.
     bindR (upd (\<lambda>n. n\<lparr>left := yr\<rparr>) t x) (\<lambda>t.
     bindR (fld right (heap t) y) (\<lambda>yr.
     bindR (if yr \<noteq> None then upd (\<lambda>n. n\<lparr>parent := x\<rparr>) t yr else ok t) (\<lambda>t.
     bindR (fld parent (heap t) x) (\<lambda>xp.
     bindR (upd (\<lambda>n. n\<lparr>parent := xp\<rparr>) t y) (\<lambda>t.
     bindR (fld parent (heap t) x) (\<lambda>xp.
     bindR (if xp = None then ok (t\<lparr>root := y\<rparr>)
            else bindR (fld right (heap t) xp) (\<lambda>xpr.
                   if x = xpr then upd (\<lambda>n. n\<lparr>right := y\<rparr>) t xp
                   else upd (\<lambda>n. n\<lparr>left := y\<rparr>) t xp)) (\<lambda>t.
     bindR (upd (\<lambda>n. n\<lparr>right := x\<rparr>) t y) (\<lambda>t.
     upd (\<lambda>n. n\<lparr>parent := y\<rparr>) t x))))))))))"

subsection \<open>Insertion\<close>

text \<open>
  The descent of \<open>Insert\<close>: \<open>for x != nil { y = x; if t.keyCmp(key, x.key) < 0
  { x = x.left } else { x = x.right } }\<close>; it returns the final \<open>y\<close>.
\<close>

partial_function (option) Insert_descend ::
    "('k, 'v) RbTree \<Rightarrow> 'k \<Rightarrow> addr option \<Rightarrow> addr option \<Rightarrow> addr option res" where
  "Insert_descend t k x y =
     (if x = None then ok y
      else bindR (fld key (heap t) x) (\<lambda>xk.
             if keyCmp t k xk < 0 then bindR (fld left (heap t) x) (\<lambda>l. Insert_descend t k l x)
             else bindR (fld right (heap t) x) (\<lambda>r. Insert_descend t k r x)))"

declare Insert_descend.simps [code]

text \<open>
  The loop of \<open>rbInsertFixup\<close>, \<open>for z.parent != nil && !z.parent.color { ... }\<close>; it
  returns the tree when the loop condition fails.
\<close>

partial_function (option) rbInsertFixup_loop ::
    "('k, 'v) RbTree \<Rightarrow> addr option \<Rightarrow> ('k, 'v) RbTree res" where
  "rbInsertFixup_loop t z =
     bindR (fld parent (heap t) z) (\<lambda>zp.
     bindR (if zp \<noteq> None then bindR (fld color (heap t) zp) (\<lambda>c. ok (\<not> c)) else ok False) (\<lambda>go.
     if \<not> go then ok t
     else
       bindR (fld parent (heap t) zp) (\<lambda>zpp.
       bindR (fld left (heap t) zpp) (\<lambda>zppl.
       if zp = zppl then
         bindR (fld right (heap t) zpp) (\<lambda>y.
         bindR (if y \<noteq> None then bindR (fld color (heap t) y) (\<lambda>c. ok (\<not> c)) else ok False) (\<lambda>yred.
         if yred then
           bindR (upd (\<lambda>n. n\<lparr>color := BLACK\<rparr>) t zp) (\<lambda>t.
           bindR (upd (\<lambda>n. n\<lparr>color := BLACK\<rparr>) t y) (\<lambda>t.
           bindR (fld parent (heap t) z) (\<lambda>zp.
           bindR (fld parent (heap t) zp) (\<lambda>zpp.
           bindR (upd (\<lambda>n. n\<lparr>color := RED\<rparr>) t zpp) (\<lambda>t.
           bindR (fld parent (heap t) z) (\<lambda>zp.
           bindR (fld parent (heap t) zp) (\<lambda>zpp.
           rbInsertFixup_loop t zpp)))))))
         else
           bindR (fld right (heap t) zp) (\<lambda>zpr.
           bindR (if z = zpr then bindR (leftRotate t zp) (\<lambda>t. ok (t, zp)) else ok (t, z)) (\<lambda>(t, z).
           bindR (fld parent (heap t) z) (\<lambda>zp.
           bindR (upd (\<lambda>n. n\<lparr>color := BLACK\<rparr>) t zp) (\<lambda>t.
           bindR (fld parent (heap t) z) (\<lambda>zp.
           bindR (fld parent (heap t) zp) (\<lambda>zpp.
           bindR (upd (\<lambda>n. n\<lparr>color := RED\<rparr>) t zpp) (\<lambda>t.
           bindR (fld parent (heap t) z) (\<lambda>zp.
           bindR (fld parent (heap t) zp) (\<lambda>zpp.
           bindR (rightRotate t zpp) (\<lambda>t.
           rbInsertFixup_loop t z))))))))))))
       else
         bindR (fld left (heap t) zpp) (\<lambda>y.
         bindR (if y \<noteq> None then bindR (fld color (heap t) y) (\<lambda>c. ok (\<not> c)) else ok False) (\<lambda>yred.
         if yred then
           bindR (upd (\<lambda>n. n\<lparr>color := BLACK\<rparr>) t zp) (\<lambda>t.
           bindR (upd (\<lambda>n. n\<lparr>color := BLACK\<rparr>) t y) (\<lambda>t.
           bindR (fld parent (heap t) z) (\<lambda>zp.
           bindR (fld parent (heap t) zp) (\<lambda>zpp.
           bindR (upd (\<lambda>n. n\<lparr>color := RED\<rparr>) t zpp) (\<lambda>t.
           bindR (fld parent (heap t) z) (\<lambda>zp.
           bindR (fld parent (heap t) zp) (\<lambda>zpp.
           rbInsertFixup_loop t zpp)))))))
         else
           bindR (fld left (heap t) zp) (\<lambda>zpl.
           bindR (if z = zpl then bindR (rightRotate t zp) (\<lambda>t. ok (t, zp)) else ok (t, z)) (\<lambda>(t, z).
           bindR (fld parent (heap t) z) (\<lambda>zp.
           bindR (upd (\<lambda>n. n\<lparr>color := BLACK\<rparr>) t zp) (\<lambda>t.
           bindR (fld parent (heap t) z) (\<lambda>zp.
           bindR (fld parent (heap t) zp) (\<lambda>zpp.
           bindR (upd (\<lambda>n. n\<lparr>color := RED\<rparr>) t zpp) (\<lambda>t.
           bindR (fld parent (heap t) z) (\<lambda>zp.
           bindR (fld parent (heap t) zp) (\<lambda>zpp.
           bindR (leftRotate t zpp) (\<lambda>t.
           rbInsertFixup_loop t z))))))))))))))))"

declare rbInsertFixup_loop.simps [code]

definition rbInsertFixup :: "('k, 'v) RbTree \<Rightarrow> addr option \<Rightarrow> ('k, 'v) RbTree res" where
  "rbInsertFixup t z =
     bindR (rbInsertFixup_loop t z) (\<lambda>t. upd (\<lambda>n. n\<lparr>color := BLACK\<rparr>) t (root t))"

text \<open>
  \<open>Insert\<close>. \<open>z := &Node{parent: y, color: RED, key: key, value: value}\<close> takes the
  address \<open>nxt t\<close>; \<open>t.size++\<close> comes before the test \<open>y == nil\<close>.
\<close>

definition Insert :: "('k, 'v) RbTree \<Rightarrow> 'k \<Rightarrow> 'v \<Rightarrow> ('k, 'v) RbTree res" where
  "Insert t k v =
     bindR (Insert_descend t k (root t) None) (\<lambda>y.
     let z = Some (nxt t);
         t = t\<lparr>heap := (heap t)(nxt t \<mapsto>
                 \<lparr>parent = y, left = None, right = None, color = RED, key = k, val = v\<rparr>),
               nxt := Suc (nxt t)\<rparr>;
         t = t\<lparr>tsize := tsize t + 1\<rparr>
     in
     if y = None then
       bindR (upd (\<lambda>n. n\<lparr>color := BLACK\<rparr>) t z) (\<lambda>t. ok (t\<lparr>root := z\<rparr>))
     else
       bindR (fld key (heap t) z) (\<lambda>zk.
       bindR (fld key (heap t) y) (\<lambda>yk.
       bindR (if keyCmp t zk yk < 0 then upd (\<lambda>n. n\<lparr>left := z\<rparr>) t y
              else upd (\<lambda>n. n\<lparr>right := z\<rparr>) t y) (\<lambda>t.
       rbInsertFixup t z))))"

subsection \<open>Deletion\<close>

definition rbFixupLeft :: "('k, 'v) RbTree \<Rightarrow> addr option \<Rightarrow> addr option \<Rightarrow> addr option
    \<Rightarrow> (('k, 'v) RbTree \<times> addr option \<times> addr option) res" where
  "rbFixupLeft t x par w0 =
     bindR (fld right (heap t) par) (\<lambda>w.
     bindR (fld color (heap t) w) (\<lambda>wc.
     bindR (if \<not> wc then
              bindR (upd (\<lambda>n. n\<lparr>color := BLACK\<rparr>) t w) (\<lambda>t.
              bindR (upd (\<lambda>n. n\<lparr>color := RED\<rparr>) t par) (\<lambda>t.
              bindR (leftRotate t par) (\<lambda>t.
              bindR (fld right (heap t) par) (\<lambda>w. ok (t, w)))))
            else ok (t, w)) (\<lambda>(t, w).
     bindR (fld left (heap t) w) (\<lambda>wl.
     bindR (getColor (heap t) wl) (\<lambda>wlc.
     bindR (if wlc then bindR (fld right (heap t) w) (\<lambda>wr. getColor (heap t) wr)
            else ok False) (\<lambda>both.
     if both then
       bindR (upd (\<lambda>n. n\<lparr>color := RED\<rparr>) t w) (\<lambda>t. ok (t, par, w))
     else
       bindR (fld right (heap t) w) (\<lambda>wr.
       bindR (getColor (heap t) wr) (\<lambda>wrc.
       bindR (if wrc then
                bindR (fld left (heap t) w) (\<lambda>wl.
                bindR (if wl \<noteq> None then upd (\<lambda>n. n\<lparr>color := BLACK\<rparr>) t wl else ok t) (\<lambda>t.
                bindR (upd (\<lambda>n. n\<lparr>color := RED\<rparr>) t w) (\<lambda>t.
                bindR (rightRotate t w) (\<lambda>t.
                bindR (fld right (heap t) par) (\<lambda>w. ok (t, w))))))
              else ok (t, w)) (\<lambda>(t, w).
       bindR (fld color (heap t) par) (\<lambda>pc.
       bindR (upd (\<lambda>n. n\<lparr>color := pc\<rparr>) t w) (\<lambda>t.
       bindR (upd (\<lambda>n. n\<lparr>color := BLACK\<rparr>) t par) (\<lambda>t.
       bindR (fld right (heap t) w) (\<lambda>wr.
       bindR (if wr \<noteq> None then upd (\<lambda>n. n\<lparr>color := BLACK\<rparr>) t wr else ok t) (\<lambda>t.
       bindR (leftRotate t par) (\<lambda>t.
       ok (t, root t, w))))))))))))))))"

definition rbFixupRight :: "('k, 'v) RbTree \<Rightarrow> addr option \<Rightarrow> addr option \<Rightarrow> addr option
    \<Rightarrow> (('k, 'v) RbTree \<times> addr option \<times> addr option) res" where
  "rbFixupRight t x par w0 =
     bindR (fld left (heap t) par) (\<lambda>w.
     bindR (fld color (heap t) w) (\<lambda>wc.
     bindR (if \<not> wc then
              bindR (upd (\<lambda>n. n\<lparr>color := BLACK\<rparr>) t w) (\<lambda>t.
              bindR (upd (\<lambda>n. n\<lparr>color := RED\<rparr>) t par) (\<lambda>t.
              bindR (rightRotate t par) (\<lambda>t.
              bindR (fld left (heap t) par) (\<lambda>w. ok (t, w)))))
            else ok (t, w)) (\<lambda>(t, w).
     bindR (fld left (heap t) w) (\<lambda>wl.
     bindR (getColor (heap t) wl) (\<lambda>wlc.
     bindR (if wlc then bindR (fld right (heap t) w) (\<lambda>wr. getColor (heap t) wr)
            else ok False) (\<lambda>both.
     if both then
       bindR (upd (\<lambda>n. n\<lparr>color := RED\<rparr>) t w) (\<lambda>t. ok (t, par, w))
     else
       bindR (fld left (heap t) w) (\<lambda>wl.
       bindR (getColor (heap t) wl) (\<lambda>wlc.
       bindR (if wlc then
                bindR (fld right (heap t) w) (\<lambda>wr.
                bindR (if wr \<noteq> None then upd (\<lambda>n. n\<lparr>color := BLACK\<rparr>) t wr else ok t) (\<lambda>t.
                bindR (upd (\<lambda>n. n\<lparr>color := RED\<rparr>) t w) (\<lambda>t.
                bindR (leftRotate t w) (\<lambda>t.
                bindR (fld left (heap t) par) (\<lambda>w. ok (t, w))))))
              else ok (t, w)) (\<lambda>(t, w).
       bindR (fld color (heap t) par) (\<lambda>pc.
       bindR (upd (\<lambda>n. n\<lparr>color := pc\<rparr>) t w) (\<lambda>t.
       bindR (upd (\<lambda>n. n\<lparr>color := BLACK\<rparr>) t par) (\<lambda>t.
       bindR (fld left (heap t) w) (\<lambda>wl.
       bindR (if wl \<noteq> None then upd (\<lambda>n. n\<lparr>color := BLACK\<rparr>) t wl else ok t) (\<lambda>t.
       bindR (rightRotate t par) (\<lambda>t.
       ok (t, root t, w))))))))))))))))"

text \<open>
  The loop of \<open>rbDeleteFixup\<close>, \<open>for x != t.root && getColor(x) { ... }\<close>; it returns the
  tree and the final \<open>x\<close>. The local \<open>w\<close> starts as nil.
\<close>

partial_function (option) rbDeleteFixup_loop ::
    "('k, 'v) RbTree \<Rightarrow> addr option \<Rightarrow> addr option \<Rightarrow> addr option
      \<Rightarrow> (('k, 'v) RbTree \<times> addr option) res" where
  "rbDeleteFixup_loop t x par w =
     bindR (if x \<noteq> root t then getColor (heap t) x else ok False) (\<lambda>go.
     if \<not> go then ok (t, x)
     else
       bindR (if x \<noteq> None then fld parent (heap t) x else ok par) (\<lambda>par.
       bindR (fld left (heap t) par) (\<lambda>pl.
       bindR (if x = pl then rbFixupLeft t x par w else rbFixupRight t x par w) (\<lambda>(t, x, w).
       rbDeleteFixup_loop t x par w))))"

declare rbDeleteFixup_loop.simps [code]

definition rbDeleteFixup :: "('k, 'v) RbTree \<Rightarrow> addr option \<Rightarrow> addr option
    \<Rightarrow> ('k, 'v) RbTree res" where
  "rbDeleteFixup t x par =
     bindR (rbDeleteFixup_loop t x par None) (\<lambda>(t, x).
       if x \<noteq> None then upd (\<lambda>n. n\<lparr>color := BLACK\<rparr>) t x else ok t)"

definition Delete :: "('k, 'v) RbTree \<Rightarrow> addr option \<Rightarrow> ('k, 'v) RbTree res" where
  "Delete t z =
     (if z = None then ok t
      else
        bindR (fld left (heap t) z) (\<lambda>zl.
        bindR (if zl \<noteq> None then bindR (fld right (heap t) z) (\<lambda>zr. ok (zr \<noteq> None))
               else ok False) (\<lambda>two.
        bindR (if two then successor (heap t) z else ok z) (\<lambda>y.
        bindR (fld left (heap t) y) (\<lambda>yl.
        bindR (if yl \<noteq> None then ok yl else fld right (heap t) y) (\<lambda>x.
        bindR (fld parent (heap t) y) (\<lambda>xparent.
        bindR (if x \<noteq> None then upd (\<lambda>n. n\<lparr>parent := xparent\<rparr>) t x else ok t) (\<lambda>t.
        bindR (fld parent (heap t) y) (\<lambda>yp.
        bindR (if yp = None then ok (t\<lparr>root := x\<rparr>)
               else bindR (fld left (heap t) yp) (\<lambda>ypl.
                      if y = ypl then upd (\<lambda>n. n\<lparr>left := x\<rparr>) t yp
                      else upd (\<lambda>n. n\<lparr>right := x\<rparr>) t yp)) (\<lambda>t.
        bindR (if y \<noteq> z then
                 bindR (fld key (heap t) y) (\<lambda>yk.
                 bindR (upd (\<lambda>n. n\<lparr>key := yk\<rparr>) t z) (\<lambda>t.
                 bindR (fld val (heap t) y) (\<lambda>yv.
                 upd (\<lambda>n. n\<lparr>val := yv\<rparr>) t z)))
               else ok t) (\<lambda>t.
        bindR (fld color (heap t) y) (\<lambda>yc.
        bindR (if yc then rbDeleteFixup t x xparent else ok t) (\<lambda>t.
        ok (t\<lparr>tsize := tsize t - 1\<rparr>))))))))))))))"

subsection \<open>Search\<close>

partial_function (option) findLowerBoundNode ::
    "('k, 'v) RbTree \<Rightarrow> addr option \<Rightarrow> 'k \<Rightarrow> addr option res" where
  "findLowerBoundNode t x k =
     (if x = None then ok None
      else
        bindR (fld key (heap t) x) (\<lambda>xk.
        if keyCmp t k xk \<le> 0 then
          bindR (fld left (heap t) x) (\<lambda>l.
          bindR (findLowerBoundNode t l k) (\<lambda>ret.
          if ret = None then ok x
          else
            bindR (fld key (heap t) ret) (\<lambda>rk.
            bindR (fld key (heap t) x) (\<lambda>xk.
            if keyCmp t rk xk \<le> 0 then ok ret else ok x))))
        else bindR (fld right (heap t) x) (\<lambda>r. findLowerBoundNode t r k)))"

declare findLowerBoundNode.simps [code]

definition FindLowerBoundNode :: "('k, 'v) RbTree \<Rightarrow> 'k \<Rightarrow> addr option res" where
  "FindLowerBoundNode t k = findLowerBoundNode t (root t) k"

partial_function (option) findUpperBoundNode ::
    "('k, 'v) RbTree \<Rightarrow> addr option \<Rightarrow> 'k \<Rightarrow> addr option res" where
  "findUpperBoundNode t x k =
     (if x = None then ok None
      else
        bindR (fld key (heap t) x) (\<lambda>xk.
        if keyCmp t k xk \<ge> 0 then
          bindR (fld right (heap t) x) (\<lambda>r. findUpperBoundNode t r k)
        else
          bindR (fld left (heap t) x) (\<lambda>l.
          bindR (findUpperBoundNode t l k) (\<lambda>ret.
          if ret = None then ok x
          else
            bindR (fld key (heap t) ret) (\<lambda>rk.
            bindR (fld key (heap t) x) (\<lambda>xk.
            if keyCmp t rk xk \<le> 0 then ok ret else ok x))))))"

declare findUpperBoundNode.simps [code]

definition FindUpperBoundNode :: "('k, 'v) RbTree \<Rightarrow> 'k \<Rightarrow> addr option res" where
  "FindUpperBoundNode t k = findUpperBoundNode t (root t) k"

definition findFirstNode :: "('k, 'v) RbTree \<Rightarrow> 'k \<Rightarrow> addr option res" where
  "findFirstNode t k =
     bindR (FindLowerBoundNode t k) (\<lambda>n.
       if n = None then ok None
       else bindR (fld key (heap t) n) (\<lambda>nk.
              if keyCmp t nk k = 0 then ok n else ok None))"

text \<open>
  \<open>Find\<close> returns the pair \<open>(V, error)\<close>. \<open>*new(V)\<close>, the zero value of the value type,
  is the parameter \<open>zero\<close>.
\<close>

definition Find :: "'v \<Rightarrow> ('k, 'v) RbTree \<Rightarrow> 'k \<Rightarrow> ('v \<times> go_error option) res" where
  "Find zero t k =
     bindR (findFirstNode t k) (\<lambda>n.
       if n \<noteq> None then bindR (fld val (heap t) n) (\<lambda>v. ok (v, None))
       else ok (zero, Some ErrorNotFound))"

definition FindNode :: "('k, 'v) RbTree \<Rightarrow> 'k \<Rightarrow> addr option res" where
  "FindNode t k = findFirstNode t k"

subsection \<open>Traversal\<close>

text \<open>
  The visitor is a Go closure: it returns a boolean and may change variables it has
  captured. The model threads those through as an accumulator of any type. The visitor
  sees a key and a value only; it does not get at the tree.
\<close>

partial_function (option) Traversal_loop ::
    "('k, 'v) heap \<Rightarrow> ('k \<Rightarrow> 'v \<Rightarrow> 'a \<Rightarrow> bool \<times> 'a) \<Rightarrow> addr option \<Rightarrow> 'a \<Rightarrow> 'a res" where
  "Traversal_loop h visitor n acc =
     (if n = None then ok acc
      else
        bindR (fld key h n) (\<lambda>k.
        bindR (fld val h n) (\<lambda>v.
        if \<not> fst (visitor k v acc) then ok (snd (visitor k v acc))
        else bindR (Node_Next h n) (\<lambda>n'. Traversal_loop h visitor n' (snd (visitor k v acc))))))"

declare Traversal_loop.simps [code]

definition Traversal :: "('k, 'v) RbTree \<Rightarrow> ('k \<Rightarrow> 'v \<Rightarrow> 'a \<Rightarrow> bool \<times> 'a) \<Rightarrow> 'a \<Rightarrow> 'a res" where
  "Traversal t visitor acc = bindR (First t) (\<lambda>n. Traversal_loop (heap t) visitor n acc)"

subsection \<open>The invariant checker\<close>

text \<open>\<open>test\<close> returns (black count, violated property, ok).\<close>

partial_function (option) test ::
    "('k, 'v) RbTree \<Rightarrow> addr option \<Rightarrow> (int \<times> int \<times> bool) res" where
  "test t n =
     (if n = None then ok (1, 0, True)
      else
        bindR (if n = root t then bindR (fld color (heap t) n) (\<lambda>c. ok (\<not> c)) else ok False) (\<lambda>bad.
        if bad then ok (1, 2, False)
        else
          bindR (fld left (heap t) n) (\<lambda>l.
          bindR (test t l) (\<lambda>(leftBlackCount, property, good).
          if \<not> good then ok (leftBlackCount, property, good)
          else
            bindR (fld right (heap t) n) (\<lambda>r.
            bindR (test t r) (\<lambda>(rightBlackCount, property, good).
            if \<not> good then ok (rightBlackCount, property, good)
            else if rightBlackCount \<noteq> leftBlackCount then ok (leftBlackCount, 5, False)
            else
              bindR (fld color (heap t) n) (\<lambda>c.
              if \<not> c then
                bindR (fld left (heap t) n) (\<lambda>l.
                bindR (getColor (heap t) l) (\<lambda>lc.
                bindR (if \<not> lc then ok True
                       else bindR (fld right (heap t) n) (\<lambda>r.
                            bindR (getColor (heap t) r) (\<lambda>rc. ok (\<not> rc)))) (\<lambda>viol.
                if viol then ok (0, 4, False) else ok (leftBlackCount, 0, True))))
              else ok (leftBlackCount + 1, 0, True))))))))"

declare test.simps [code]

definition IsRbTree :: "('k, 'v) RbTree \<Rightarrow> (bool \<times> go_error option) res" where
  "IsRbTree t =
     bindR (test t (root t)) (\<lambda>(c, property, good).
       if \<not> good then ok (False, Some (ViolateProperty property)) else ok (True, None))"

section \<open>Cursors that hold nil\<close>

text \<open>
  C10. On a cursor whose node is nil, \<open>Key\<close>, \<open>Value\<close> and \<open>SetValue\<close> panic with a nil
  dereference, so they return a value only on a valid cursor; \<open>Next\<close> and \<open>Prev\<close> return
  the cursor unchanged, \<open>IsValid\<close> is false, \<open>Clone\<close> gives a cursor that holds nil too,
  and \<open>Equal\<close> with another tree cursor says whether that one holds nil as well.
\<close>

theorem invalid_cursor_ops:
  assumes "\<not> IsValid iter"
  shows "Key h iter = nil_panic \<and> Value h iter = nil_panic \<and> SetValue h iter v = nil_panic
    \<and> Next h iter = ok iter \<and> Prev h iter = ok iter
    \<and> node (Clone iter) = None
    \<and> Equal iter (IsRbTreeIterator other) = (\<not> IsValid other)
    \<and> Equal iter OtherIterator = False"
  using assms
  by (auto simp: IsValid_def Key_def Value_def SetValue_def Next_def Prev_def Clone_def
      Equal_def NewIterator_def Node_Key_def Node_Value_def Node_SetValue_def fld_def
      store_def bindR_def nil_panic_def)

theorem invalid_cursor_ops_witness:
  "\<not> IsValid (NewIterator None)
   \<and> Key (Map.empty :: (int, int) heap) (NewIterator None) = nil_panic
   \<and> Value (Map.empty :: (int, int) heap) (NewIterator None) = nil_panic
   \<and> SetValue (Map.empty :: (int, int) heap) (NewIterator None) 7 = nil_panic
   \<and> Next (Map.empty :: (int, int) heap) (NewIterator None) = ok (NewIterator None)
   \<and> Prev (Map.empty :: (int, int) heap) (NewIterator None) = ok (NewIterator None)"
proof -
  have inv: "\<not> IsValid (NewIterator None)"
    by (simp add: IsValid_def NewIterator_def)
  show ?thesis
    using inv invalid_cursor_ops [OF inv, of "Map.empty :: (int, int) heap" 7]
    by simp
qed

section \<open>Abstract trees and zippers\<close>

lemma bindR_ok [simp]: "bindR (ok x) f = f x"
  by (simp add: bindR_def ok_def)

lemma bindR_panic [simp]: "bindR nil_panic f = nil_panic"
  by (simp add: bindR_def nil_panic_def)

lemma ok_inject [simp]: "(ok x = ok y) = (x = y)"
  by (simp add: ok_def)

lemma ok_not_panic [simp]: "ok x \<noteq> nil_panic" "nil_panic \<noteq> ok x"
  by (simp_all add: ok_def nil_panic_def)

lemma fld_Some: "h a = Some n \<Longrightarrow> fld f h (Some a) = ok (f n)"
  by (simp add: fld_def)

lemma upd_Some: "heap s a = Some n \<Longrightarrow> upd g s (Some a) = ok (s\<lparr>heap := (heap s)(a \<mapsto> g n)\<rparr>)"
  by (simp add: upd_def store_def)

datatype ('k, 'v) tree = Lf | Nd "('k, 'v) tree" addr bool 'k 'v "('k, 'v) tree"

datatype ('k, 'v) ctx = Top
  | InL "('k, 'v) ctx" addr bool 'k 'v "('k, 'v) tree"
  | InR "('k, 'v) tree" addr bool 'k 'v "('k, 'v) ctx"

fun rootp :: "('k, 'v) tree \<Rightarrow> addr option" where
  "rootp Lf = None"
| "rootp (Nd l a c k v r) = Some a"

fun inord :: "(addr \<Rightarrow> bool \<Rightarrow> 'k \<Rightarrow> 'v \<Rightarrow> 'x) \<Rightarrow> ('k, 'v) tree \<Rightarrow> 'x list" where
  "inord f Lf = []"
| "inord f (Nd l a c k v r) = inord f l @ f a c k v # inord f r"

abbreviation addrs :: "('k, 'v) tree \<Rightarrow> addr list" where
  "addrs \<equiv> inord (\<lambda>a c k v. a)"

fun plug :: "('k, 'v) ctx \<Rightarrow> ('k, 'v) tree \<Rightarrow> ('k, 'v) tree" where
  "plug Top t = t"
| "plug (InL C a c k v r) t = plug C (Nd t a c k v r)"
| "plug (InR l a c k v C) t = plug C (Nd l a c k v t)"

fun cpar :: "('k, 'v) ctx \<Rightarrow> addr option" where
  "cpar Top = None"
| "cpar (InL C a c k v r) = Some a"
| "cpar (InR l a c k v C) = Some a"

fun cbef :: "(addr \<Rightarrow> bool \<Rightarrow> 'k \<Rightarrow> 'v \<Rightarrow> 'x) \<Rightarrow> ('k, 'v) ctx \<Rightarrow> 'x list" where
  "cbef f Top = []"
| "cbef f (InL C a c k v r) = cbef f C"
| "cbef f (InR l a c k v C) = cbef f C @ inord f l @ [f a c k v]"

fun caft :: "(addr \<Rightarrow> bool \<Rightarrow> 'k \<Rightarrow> 'v \<Rightarrow> 'x) \<Rightarrow> ('k, 'v) ctx \<Rightarrow> 'x list" where
  "caft f Top = []"
| "caft f (InL C a c k v r) = f a c k v # inord f r @ caft f C"
| "caft f (InR l a c k v C) = caft f C"

abbreviation cbefa :: "('k, 'v) ctx \<Rightarrow> addr list" where
  "cbefa \<equiv> cbef (\<lambda>a c k v. a)"

abbreviation cafta :: "('k, 'v) ctx \<Rightarrow> addr list" where
  "cafta \<equiv> caft (\<lambda>a c k v. a)"

lemma inord_plug: "inord f (plug C t) = cbef f C @ inord f t @ caft f C"
  by (induction C arbitrary: t) auto

fun repr :: "('k, 'v) heap \<Rightarrow> addr option \<Rightarrow> ('k, 'v) tree \<Rightarrow> bool" where
  "repr h par Lf = True"
| "repr h par (Nd l a c k v r) =
     (h a = Some \<lparr>parent = par, left = rootp l, right = rootp r, color = c, key = k, val = v\<rparr>
      \<and> repr h (Some a) l \<and> repr h (Some a) r)"

fun crep :: "('k, 'v) heap \<Rightarrow> addr option \<Rightarrow> ('k, 'v) ctx \<Rightarrow> addr option \<Rightarrow> bool" where
  "crep h rt Top p = (rt = p)"
| "crep h rt (InL C a c k v r) p =
     (h a = Some \<lparr>parent = cpar C, left = p, right = rootp r, color = c, key = k, val = v\<rparr>
      \<and> repr h (Some a) r \<and> crep h rt C (Some a))"
| "crep h rt (InR l a c k v C) p =
     (h a = Some \<lparr>parent = cpar C, left = rootp l, right = p, color = c, key = k, val = v\<rparr>
      \<and> repr h (Some a) l \<and> crep h rt C (Some a))"

definition zrep :: "('k, 'v) heap \<Rightarrow> addr option \<Rightarrow> ('k, 'v) ctx \<Rightarrow> ('k, 'v) tree \<Rightarrow> bool" where
  "zrep h rt C t = (crep h rt C (rootp t) \<and> repr h (cpar C) t
     \<and> distinct (cbefa C @ addrs t @ cafta C))"

definition zr :: "('k, 'v) RbTree \<Rightarrow> ('k, 'v) ctx \<Rightarrow> ('k, 'v) tree \<Rightarrow> bool" where
  "zr s C t = zrep (heap s) (root s) C t"

definition same :: "('k, 'v) RbTree \<Rightarrow> ('k, 'v) RbTree \<Rightarrow> bool" where
  "same s s' = (nxt s' = nxt s \<and> tsize s' = tsize s \<and> keyCmp s' = keyCmp s)"

lemma same_refl [simp]: "same s s"
  by (simp add: same_def)

lemma same_trans: "same s s' \<Longrightarrow> same s' s'' \<Longrightarrow> same s s''"
  by (simp add: same_def)

lemma same_heap_upd [simp]: "same s (s\<lparr>heap := h\<rparr>)" "same s (s\<lparr>root := r\<rparr>)"
  "same s (s\<lparr>heap := h, root := r\<rparr>)"
  by (simp_all add: same_def)

lemma rootp_notin [simp]:
  "a \<notin> set (addrs t) \<Longrightarrow> rootp t \<noteq> Some a"
  "a \<notin> set (addrs t) \<Longrightarrow> Some a \<noteq> rootp t"
  by (cases t; auto)+

lemma rootp_None [simp]: "(rootp t = None) = (t = Lf)" "(None = rootp t) = (t = Lf)"
  by (cases t; auto)+

lemma repr_upd [simp]: "a \<notin> set (addrs t) \<Longrightarrow> repr (h(a \<mapsto> n)) par t = repr h par t"
  by (induction t arbitrary: par) auto

lemma crep_upd [simp]:
  "a \<notin> set (cbefa C) \<Longrightarrow> a \<notin> set (cafta C) \<Longrightarrow> crep (h(a \<mapsto> n)) rt C p = crep h rt C p"
  by (induction C arbitrary: p) auto

lemma zrep_InL: "zrep h rt (InL C a c k v r) t = zrep h rt C (Nd t a c k v r)"
  by (auto simp: zrep_def)

lemma zrep_InR: "zrep h rt (InR l a c k v C) t = zrep h rt C (Nd l a c k v t)"
  by (auto simp: zrep_def)

lemma zrep_plug: "zrep h rt C t = zrep h rt Top (plug C t)"
  by (induction C arbitrary: t) (simp_all add: zrep_InL zrep_InR)

lemma zr_InL: "zr s (InL C a c k v r) t = zr s C (Nd t a c k v r)"
  by (simp add: zr_def zrep_InL)

lemma zr_InR: "zr s (InR l a c k v C) t = zr s C (Nd l a c k v t)"
  by (simp add: zr_def zrep_InR)

lemma zr_plug: "zr s C t = zr s Top (plug C t)"
  unfolding zr_def by (rule zrep_plug)

lemma leftRotate_zr:
  assumes "zr s C (Nd a x cx kx vx (Nd b y cy ky vy c))"
  shows "\<exists>s'. leftRotate s (Some x) = ok s' \<and> zr s' C (Nd (Nd a x cx kx vx b) y cy ky vy c) \<and> same s s'"
proof (cases C)
  case Top
  then show ?thesis using assms
    by (cases b) (auto simp: zr_def zrep_def leftRotate_def fld_Some upd_Some same_def)
next
  case (InL C' p cp kp vp r)
  then show ?thesis using assms
    by (cases b) (auto simp: zr_def zrep_def leftRotate_def fld_Some upd_Some same_def)
next
  case (InR l p cp kp vp C')
  then show ?thesis using assms
    by (cases b) (auto simp: zr_def zrep_def leftRotate_def fld_Some upd_Some same_def)
qed


lemma rightRotate_zr:
  assumes "zr s C (Nd (Nd a y cy ky vy b) x cx kx vx c)"
  shows "\<exists>s'. rightRotate s (Some x) = ok s' \<and> zr s' C (Nd a y cy ky vy (Nd b x cx kx vx c)) \<and> same s s'"
proof (cases C)
  case Top
  then show ?thesis using assms
    by (cases b) (auto simp: zr_def zrep_def rightRotate_def fld_Some upd_Some same_def)
next
  case (InL C' p cp kp vp r)
  then show ?thesis using assms
    by (cases b) (auto simp: zr_def zrep_def rightRotate_def fld_Some upd_Some same_def)
next
  case (InR l p cp kp vp C')
  then show ?thesis using assms
    by (cases b) (auto simp: zr_def zrep_def rightRotate_def fld_Some upd_Some same_def)
qed

fun col :: "('k, 'v) tree \<Rightarrow> bool" where
  "col Lf = BLACK"
| "col (Nd l a c k v r) = c"

fun bh :: "('k, 'v) tree \<Rightarrow> nat" where
  "bh Lf = 0"
| "bh (Nd l a c k v r) = bh l + (if c then 1 else 0)"

fun invh :: "('k, 'v) tree \<Rightarrow> bool" where
  "invh Lf = True"
| "invh (Nd l a c k v r) = (bh l = bh r \<and> invh l \<and> invh r)"

fun invc :: "('k, 'v) tree \<Rightarrow> bool" where
  "invc Lf = True"
| "invc (Nd l a c k v r) = ((\<not> c \<longrightarrow> col l \<and> col r) \<and> invc l \<and> invc r)"

fun paint :: "bool \<Rightarrow> ('k, 'v) tree \<Rightarrow> ('k, 'v) tree" where
  "paint c Lf = Lf"
| "paint c (Nd l a c' k v r) = Nd l a c k v r"

fun ccol :: "('k, 'v) ctx \<Rightarrow> bool" where
  "ccol Top = BLACK"
| "ccol (InL C a c k v r) = c"
| "ccol (InR l a c k v C) = c"

fun cinvh :: "('k, 'v) ctx \<Rightarrow> nat \<Rightarrow> bool" where
  "cinvh Top n = True"
| "cinvh (InL C a c k v r) n = (n = bh r \<and> invh r \<and> cinvh C (n + (if c then 1 else 0)))"
| "cinvh (InR l a c k v C) n = (bh l = n \<and> invh l \<and> cinvh C (bh l + (if c then 1 else 0)))"

fun cinvc :: "('k, 'v) ctx \<Rightarrow> bool" where
  "cinvc Top = True"
| "cinvc (InL C a c k v r) = ((\<not> c \<longrightarrow> col r \<and> ccol C) \<and> invc r \<and> cinvc C)"
| "cinvc (InR l a c k v C) = ((\<not> c \<longrightarrow> col l \<and> ccol C) \<and> invc l \<and> cinvc C)"

text \<open>The outermost node of a context (the root of the whole tree) is black.\<close>

fun crootb :: "('k, 'v) ctx \<Rightarrow> bool" where
  "crootb Top = True"
| "crootb (InL C a c k v r) = (if C = Top then c else crootb C)"
| "crootb (InR l a c k v C) = (if C = Top then c else crootb C)"

fun csize :: "('k, 'v) ctx \<Rightarrow> nat" where
  "csize Top = 0"
| "csize (InL C a c k v r) = Suc (csize C)"
| "csize (InR l a c k v C) = Suc (csize C)"

lemma invh_plug: "invh (plug C t) = (invh t \<and> cinvh C (bh t))"
  by (induction C arbitrary: t) auto

lemma bh_paint_inv [simp]: "invh (paint c t) = invh t"
  by (cases t) auto

lemma invc_plug: "invc (plug C t) = (invc t \<and> cinvc C \<and> (\<not> ccol C \<longrightarrow> col t))"
  by (induction C arbitrary: t) auto

lemma col_plug: "C \<noteq> Top \<Longrightarrow> col (plug C t) = crootb C"
  by (induction C arbitrary: t) auto

abbreviation nodes :: "('k, 'v) tree \<Rightarrow> (addr \<times> 'k \<times> 'v) list" where
  "nodes \<equiv> inord (\<lambda>a c k v. (a, k, v))"

lemma paint_plug:
  "C \<noteq> Top \<Longrightarrow> crootb C \<Longrightarrow> paint BLACK (plug C t) = plug C t"
  by (induction C arbitrary: t) (auto split: if_splits)

lemma ifix_exit:
  assumes "zr s C (Nd l z c k v r)" "ccol C"
  shows "rbInsertFixup_loop s (Some z) = ok s"
  using assms
  apply (subst rbInsertFixup_loop.simps)
  apply (cases C)
  apply (auto simp: zr_def zrep_def fld_Some)
  done

lemma ifix_recolor_LL:
  assumes "zr s (InL (InL C g BLACK kg vg (Nd ul u RED ku vu ur)) p RED kp vp pr) (Nd l z RED kz vz r)"
  shows "\<exists>s'. rbInsertFixup_loop s (Some z) = rbInsertFixup_loop s' (Some g)
     \<and> zr s' C (Nd (Nd (Nd l z RED kz vz r) p BLACK kp vp pr) g RED kg vg (Nd ul u BLACK ku vu ur))
     \<and> same s s'"
  using assms
  apply (subst rbInsertFixup_loop.simps)
  apply (clarsimp simp: zr_def zrep_def fld_Some upd_Some)
  apply (rule exI, rule conjI, rule refl)
  apply (auto simp: same_def)
  done

lemma ifix_recolor_RL:
  assumes "zr s (InR pl p RED kp vp (InL C g BLACK kg vg (Nd ul u RED ku vu ur))) (Nd l z RED kz vz r)"
  shows "\<exists>s'. rbInsertFixup_loop s (Some z) = rbInsertFixup_loop s' (Some g)
     \<and> zr s' C (Nd (Nd pl p BLACK kp vp (Nd l z RED kz vz r)) g RED kg vg (Nd ul u BLACK ku vu ur))
     \<and> same s s'"
  using assms
  apply (subst rbInsertFixup_loop.simps)
  apply (clarsimp simp: zr_def zrep_def fld_Some upd_Some)
  apply (rule exI, rule conjI, rule refl)
  apply (auto simp: same_def)
  done

lemma ifix_recolor_LR:
  assumes "zr s (InL (InR (Nd ul u RED ku vu ur) g BLACK kg vg C) p RED kp vp pr) (Nd l z RED kz vz r)"
  shows "\<exists>s'. rbInsertFixup_loop s (Some z) = rbInsertFixup_loop s' (Some g)
     \<and> zr s' C (Nd (Nd ul u BLACK ku vu ur) g RED kg vg (Nd (Nd l z RED kz vz r) p BLACK kp vp pr))
     \<and> same s s'"
  using assms
  apply (subst rbInsertFixup_loop.simps)
  apply (clarsimp simp: zr_def zrep_def fld_Some upd_Some)
  apply (rule exI, rule conjI, rule refl)
  apply (auto simp: same_def)
  done

lemma ifix_recolor_RR:
  assumes "zr s (InR pl p RED kp vp (InR (Nd ul u RED ku vu ur) g BLACK kg vg C)) (Nd l z RED kz vz r)"
  shows "\<exists>s'. rbInsertFixup_loop s (Some z) = rbInsertFixup_loop s' (Some g)
     \<and> zr s' C (Nd (Nd ul u BLACK ku vu ur) g RED kg vg (Nd pl p BLACK kp vp (Nd l z RED kz vz r)))
     \<and> same s s'"
  using assms
  apply (subst rbInsertFixup_loop.simps)
  apply (clarsimp simp: zr_def zrep_def fld_Some upd_Some)
  apply (rule exI, rule conjI, rule refl)
  apply (auto simp: same_def)
  done

lemma ifix_rot_LL:
  assumes z0: "zr s (InL (InL C g BLACK kg vg u) p RED kp vp pr) (Nd l z RED kz vz r)" and u: "col u"
  shows "\<exists>s'. rbInsertFixup_loop s (Some z) = ok s'
     \<and> zr s' C (Nd (Nd l z RED kz vz r) p BLACK kp vp (Nd pr g RED kg vg u))
     \<and> same s s'"
proof -
  have "\<exists>s1. rbInsertFixup_loop s (Some z)
        = bindR (rightRotate s1 (Some g)) (\<lambda>t. rbInsertFixup_loop t (Some z))
      \<and> zr s1 C (Nd (Nd (Nd l z RED kz vz r) p BLACK kp vp pr) g RED kg vg u)
      \<and> same s s1"
    using assms
    apply (subst rbInsertFixup_loop.simps)
    apply (cases u)
    apply (clarsimp simp: zr_def zrep_def fld_Some upd_Some)
    apply (rule exI, rule conjI, rule refl)
    apply (auto simp: same_def)[1]
    apply (clarsimp simp: zr_def zrep_def fld_Some upd_Some)
    apply (rule exI, rule conjI, rule refl)
    apply (auto simp: same_def)[1]
    done
  then obtain s1 where a: "rbInsertFixup_loop s (Some z)
        = bindR (rightRotate s1 (Some g)) (\<lambda>t. rbInsertFixup_loop t (Some z))"
      "zr s1 C (Nd (Nd (Nd l z RED kz vz r) p BLACK kp vp pr) g RED kg vg u)" "same s s1"
    by blast
  from rightRotate_zr [OF a(2)] obtain s2 where b: "rightRotate s1 (Some g) = ok s2"
      "zr s2 C (Nd (Nd l z RED kz vz r) p BLACK kp vp (Nd pr g RED kg vg u))" "same s1 s2"
    by blast
  have "zr s2 (InL C p BLACK kp vp (Nd pr g RED kg vg u)) (Nd l z RED kz vz r)"
    using b(2) by (simp add: zr_InL)
  then have "rbInsertFixup_loop s2 (Some z) = ok s2"
    by (rule ifix_exit) simp
  then show ?thesis
    using a b same_trans by fastforce
qed

lemma ifix_rot_RR:
  assumes z0: "zr s (InR pl p RED kp vp (InR u g BLACK kg vg C)) (Nd l z RED kz vz r)" and u: "col u"
  shows "\<exists>s'. rbInsertFixup_loop s (Some z) = ok s'
     \<and> zr s' C (Nd (Nd u g RED kg vg pl) p BLACK kp vp (Nd l z RED kz vz r))
     \<and> same s s'"
proof -
  have "\<exists>s1. rbInsertFixup_loop s (Some z)
        = bindR (leftRotate s1 (Some g)) (\<lambda>t. rbInsertFixup_loop t (Some z))
      \<and> zr s1 C (Nd u g RED kg vg (Nd pl p BLACK kp vp (Nd l z RED kz vz r)))
      \<and> same s s1"
    using assms
    apply (subst rbInsertFixup_loop.simps)
    apply (cases u)
    apply (clarsimp simp: zr_def zrep_def fld_Some upd_Some)
    apply (rule exI, rule conjI, rule refl)
    apply (auto simp: same_def)[1]
    apply (clarsimp simp: zr_def zrep_def fld_Some upd_Some)
    apply (rule exI, rule conjI, rule refl)
    apply (auto simp: same_def)[1]
    done
  then obtain s1 where a: "rbInsertFixup_loop s (Some z)
        = bindR (leftRotate s1 (Some g)) (\<lambda>t. rbInsertFixup_loop t (Some z))"
      "zr s1 C (Nd u g RED kg vg (Nd pl p BLACK kp vp (Nd l z RED kz vz r)))" "same s s1"
    by blast
  from leftRotate_zr [OF a(2)] obtain s2 where b: "leftRotate s1 (Some g) = ok s2"
      "zr s2 C (Nd (Nd u g RED kg vg pl) p BLACK kp vp (Nd l z RED kz vz r))" "same s1 s2"
    by blast
  have "zr s2 (InR (Nd u g RED kg vg pl) p BLACK kp vp C) (Nd l z RED kz vz r)"
    using b(2) by (simp add: zr_InR)
  then have "rbInsertFixup_loop s2 (Some z) = ok s2"
    by (rule ifix_exit) simp
  then show ?thesis
    using a b same_trans by fastforce
qed

lemma ifix_rot_RL:
  assumes z0: "zr s (InR pl p RED kp vp (InL C g BLACK kg vg u)) (Nd l z RED kz vz r)" and u: "col u"
  shows "\<exists>s'. rbInsertFixup_loop s (Some z) = ok s'
     \<and> zr s' C (Nd (Nd pl p RED kp vp l) z BLACK kz vz (Nd r g RED kg vg u))
     \<and> same s s'"
proof -
  have "zr s (InL C g BLACK kg vg u) (Nd pl p RED kp vp (Nd l z RED kz vz r))"
    using z0 by (simp add: zr_InR)
  from leftRotate_zr [OF this] obtain s1 where a: "leftRotate s (Some p) = ok s1"
      "zr s1 (InL C g BLACK kg vg u) (Nd (Nd pl p RED kp vp l) z RED kz vz r)" "same s s1"
    by blast
  have "\<exists>s2. rbInsertFixup_loop s (Some z)
        = bindR (rightRotate s2 (Some g)) (\<lambda>t. rbInsertFixup_loop t (Some p))
      \<and> zr s2 C (Nd (Nd (Nd pl p RED kp vp l) z BLACK kz vz r) g RED kg vg u)
      \<and> same s1 s2"
    using z0 u a(2)
    apply (subst rbInsertFixup_loop.simps)
    apply (cases u)
    apply (clarsimp simp: zr_def zrep_def fld_Some upd_Some a(1))
    apply (rule exI, rule conjI, rule refl)
    apply (auto simp: same_def)[1]
    apply (clarsimp simp: zr_def zrep_def fld_Some upd_Some a(1))
    apply (rule exI, rule conjI, rule refl)
    apply (auto simp: same_def)[1]
    done
  then obtain s2 where b: "rbInsertFixup_loop s (Some z)
        = bindR (rightRotate s2 (Some g)) (\<lambda>t. rbInsertFixup_loop t (Some p))"
      "zr s2 C (Nd (Nd (Nd pl p RED kp vp l) z BLACK kz vz r) g RED kg vg u)" "same s1 s2"
    by blast
  from rightRotate_zr [OF b(2)] obtain s3 where c: "rightRotate s2 (Some g) = ok s3"
      "zr s3 C (Nd (Nd pl p RED kp vp l) z BLACK kz vz (Nd r g RED kg vg u))" "same s2 s3"
    by blast
  have "zr s3 (InL C z BLACK kz vz (Nd r g RED kg vg u)) (Nd pl p RED kp vp l)"
    using c(2) by (simp add: zr_InL)
  then have "rbInsertFixup_loop s3 (Some p) = ok s3"
    by (rule ifix_exit) simp
  then show ?thesis
    using a b c same_trans by fastforce
qed

lemma ifix_rot_LR:
  assumes z0: "zr s (InL (InR u g BLACK kg vg C) p RED kp vp pr) (Nd l z RED kz vz r)" and u: "col u"
  shows "\<exists>s'. rbInsertFixup_loop s (Some z) = ok s'
     \<and> zr s' C (Nd (Nd u g RED kg vg l) z BLACK kz vz (Nd r p RED kp vp pr))
     \<and> same s s'"
proof -
  have "zr s (InR u g BLACK kg vg C) (Nd (Nd l z RED kz vz r) p RED kp vp pr)"
    using z0 by (simp add: zr_InL)
  from rightRotate_zr [OF this] obtain s1 where a: "rightRotate s (Some p) = ok s1"
      "zr s1 (InR u g BLACK kg vg C) (Nd l z RED kz vz (Nd r p RED kp vp pr))" "same s s1"
    by blast
  have "\<exists>s2. rbInsertFixup_loop s (Some z)
        = bindR (leftRotate s2 (Some g)) (\<lambda>t. rbInsertFixup_loop t (Some p))
      \<and> zr s2 C (Nd u g RED kg vg (Nd l z BLACK kz vz (Nd r p RED kp vp pr)))
      \<and> same s1 s2"
    using z0 u a(2)
    apply (subst rbInsertFixup_loop.simps)
    apply (cases u)
    apply (clarsimp simp: zr_def zrep_def fld_Some upd_Some a(1))
    apply (rule exI, rule conjI, rule refl)
    apply (auto simp: same_def)[1]
    apply (clarsimp simp: zr_def zrep_def fld_Some upd_Some a(1))
    apply (rule exI, rule conjI, rule refl)
    apply (auto simp: same_def)[1]
    done
  then obtain s2 where b: "rbInsertFixup_loop s (Some z)
        = bindR (leftRotate s2 (Some g)) (\<lambda>t. rbInsertFixup_loop t (Some p))"
      "zr s2 C (Nd u g RED kg vg (Nd l z BLACK kz vz (Nd r p RED kp vp pr)))" "same s1 s2"
    by blast
  from leftRotate_zr [OF b(2)] obtain s3 where c: "leftRotate s2 (Some g) = ok s3"
      "zr s3 C (Nd (Nd u g RED kg vg l) z BLACK kz vz (Nd r p RED kp vp pr))" "same s2 s3"
    by blast
  have "zr s3 (InR (Nd u g RED kg vg l) z BLACK kz vz C) (Nd r p RED kp vp pr)"
    using c(2) by (simp add: zr_InR)
  then have "rbInsertFixup_loop s3 (Some p) = ok s3"
    by (rule ifix_exit) simp
  then show ?thesis
    using a b c same_trans by fastforce
qed


lemma plug_not_Lf [simp]: "t \<noteq> Lf \<Longrightarrow> plug C t \<noteq> Lf"
  by (induction C arbitrary: t) auto

lemma invc_paint: "invc t \<Longrightarrow> invc (paint BLACK t)"
  by (cases t) auto

lemma invc_paint_Nd [simp]: "invc (paint BLACK (Nd l a c k v r)) = (invc l \<and> invc r)"
  by simp

lemma finish_black:
  assumes "zr s C T" "invc T" "invh T" "cinvh C (bh T)" "cinvc C" "crootb C" "col T \<or> ccol C"
  shows "zr s Top (plug C T) \<and> invh (plug C T) \<and> invc (paint BLACK (plug C T))"
proof (cases "C = Top")
  case True
  then show ?thesis using assms by (simp add: invc_paint)
next
  case False
  then show ?thesis using assms
    by (auto simp: paint_plug invc_plug invh_plug zr_plug [symmetric])
qed

lemma crootb_up:
  "crootb (InL C a c k v r) \<Longrightarrow> crootb C"
  "crootb (InR l a c k v C) \<Longrightarrow> crootb C"
  by (cases C; simp)+

lemma crootb_red:
  "crootb (InL C a RED k v r) \<Longrightarrow> C \<noteq> Top"
  "crootb (InR l a RED k v C) \<Longrightarrow> C \<noteq> Top"
  by auto

lemma col_red_cases: "\<not> col u \<Longrightarrow> \<exists>ul ua ku vu ur. u = Nd ul ua RED ku vu ur"
  by (cases u) auto

lemma ifix_loop:
  assumes "zr s C (Nd l z RED kz vz r)" "invc (Nd l z RED kz vz r)" "invh (Nd l z RED kz vz r)"
    "cinvh C (bh l)" "cinvc C" "crootb C"
  shows "\<exists>s' t'. rbInsertFixup_loop s (Some z) = ok s' \<and> zr s' Top t' \<and> t' \<noteq> Lf
      \<and> invh t' \<and> invc (paint BLACK t')
      \<and> nodes t' = nodes (plug C (Nd l z RED kz vz r)) \<and> same s s'"
  using assms
proof (induction "csize C" arbitrary: C s l z kz vz r rule: less_induct)
  case less
  note zr0 = less.prems(1) and ic = less.prems(2) and ih = less.prems(3)
    and ch = less.prems(4) and cc = less.prems(5) and cr = less.prems(6)
  have blackparent: ?case if "ccol C"
  proof -
    have e: "rbInsertFixup_loop s (Some z) = ok s"
      using zr0 that by (rule ifix_exit)
    have "zr s Top (plug C (Nd l z RED kz vz r)) \<and> invh (plug C (Nd l z RED kz vz r))
        \<and> invc (paint BLACK (plug C (Nd l z RED kz vz r)))"
      by (rule finish_black) (use zr0 ic ih ch cc cr that in auto)
    then show ?thesis using e
      by (intro exI [of _ s] exI [of _ "plug C (Nd l z RED kz vz r)"]) simp
  qed
  have rot: ?case
    if "rbInsertFixup_loop s (Some z) = ok s'" "zr s' C2 T" "same s s'"
      "invc T" "invh T" "cinvh C2 (bh T)" "cinvc C2" "crootb C2" "col T" "T \<noteq> Lf"
      "nodes (plug C2 T) = nodes (plug C (Nd l z RED kz vz r))"
    for s' C2 T
  proof -
    have "zr s' Top (plug C2 T) \<and> invh (plug C2 T) \<and> invc (paint BLACK (plug C2 T))"
      by (rule finish_black) (use that in auto)
    then show ?thesis using that
      by (intro exI [of _ s'] exI [of _ "plug C2 T"]) simp
  qed
  have recolor: ?case
    if "rbInsertFixup_loop s (Some z) = rbInsertFixup_loop s' (Some g)"
      "zr s' C2 (Nd gl g RED kg vg gr)" "same s s'" "csize C2 < csize C"
      "invc (Nd gl g RED kg vg gr)" "invh (Nd gl g RED kg vg gr)"
      "cinvh C2 (bh gl)" "cinvc C2" "crootb C2"
      "nodes (plug C2 (Nd gl g RED kg vg gr)) = nodes (plug C (Nd l z RED kz vz r))"
    for s' C2 gl g kg vg gr
  proof -
    from less.hyps [OF that(4) that(2) that(5-9)] obtain s'' t' where
      "rbInsertFixup_loop s' (Some g) = ok s''" "zr s'' Top t'" "t' \<noteq> Lf"
      "invh t'" "invc (paint BLACK t')"
      "nodes t' = nodes (plug C2 (Nd gl g RED kg vg gr))" "same s' s''"
      by blast
    then show ?thesis using that(1,3,10) same_trans
      by (intro exI [of _ s''] exI [of _ t']) auto
  qed
  show ?case
  proof (cases C)
    case Top
    then show ?thesis using blackparent by simp
  next
    case (InL C1 p cp kp vp pr)
    note CC = this
    show ?thesis
    proof (cases cp)
      case True
      then show ?thesis using blackparent CC by simp
    next
      case False
      with CC cc cr have g: "ccol C1" "C1 \<noteq> Top" by auto
      show ?thesis
      proof (cases C1)
        case Top
        then show ?thesis using g by simp
      next
        case (InL C2 g cg kg vg ut)
        note C1 = this
        have z1: "zr s (InL (InL C2 g BLACK kg vg ut) p RED kp vp pr) (Nd l z RED kz vz r)"
          using zr0 CC C1 False g by simp
        show ?thesis
        proof (cases "col ut")
          case True
          from ifix_rot_LL [OF z1 True] obtain s' where
            r: "rbInsertFixup_loop s (Some z) = ok s'"
              "zr s' C2 (Nd (Nd l z RED kz vz r) p BLACK kp vp (Nd pr g RED kg vg ut))"
              "same s s'"
            by blast
          show ?thesis
            by (rule rot [OF r])
              (use ic ih ch cc cr CC C1 False g True in \<open>auto simp: inord_plug split: if_splits\<close>)
        next
          case ured: False
          then obtain ul u ku vu ur where u: "ut = (Nd ul u RED ku vu ur)"
            using col_red_cases by blast
          from ifix_recolor_LL [OF z1 [unfolded u]] obtain s' where
            r: "rbInsertFixup_loop s (Some z) = rbInsertFixup_loop s' (Some g)"
              "zr s' C2 (Nd (Nd (Nd l z RED kz vz r) p BLACK kp vp pr) g RED kg vg (Nd ul u BLACK ku vu ur))"
              "same s s'"
            by blast
          show ?thesis
            by (rule recolor [OF r])
              (use ic ih ch cc cr CC C1 False g u in \<open>auto simp: inord_plug split: if_splits\<close>)
        qed
      next
        case (InR ut g cg kg vg C2)
        note C1 = this
        have z1: "zr s (InL (InR ut g BLACK kg vg C2) p RED kp vp pr) (Nd l z RED kz vz r)"
          using zr0 CC C1 False g by simp
        show ?thesis
        proof (cases "col ut")
          case True
          from ifix_rot_LR [OF z1 True] obtain s' where
            r: "rbInsertFixup_loop s (Some z) = ok s'"
              "zr s' C2 (Nd (Nd ut g RED kg vg l) z BLACK kz vz (Nd r p RED kp vp pr))"
              "same s s'"
            by blast
          show ?thesis
            by (rule rot [OF r])
              (use ic ih ch cc cr CC C1 False g True in \<open>auto simp: inord_plug split: if_splits\<close>)
        next
          case ured: False
          then obtain ul u ku vu ur where u: "ut = (Nd ul u RED ku vu ur)"
            using col_red_cases by blast
          from ifix_recolor_LR [OF z1 [unfolded u]] obtain s' where
            r: "rbInsertFixup_loop s (Some z) = rbInsertFixup_loop s' (Some g)"
              "zr s' C2 (Nd (Nd ul u BLACK ku vu ur) g RED kg vg (Nd (Nd l z RED kz vz r) p BLACK kp vp pr))"
              "same s s'"
            by blast
          show ?thesis
            by (rule recolor [OF r])
              (use ic ih ch cc cr CC C1 False g u in \<open>auto simp: inord_plug split: if_splits\<close>)
        qed
      qed
    qed
  next
    case (InR pl p cp kp vp C1)
    note CC = this
    show ?thesis
    proof (cases cp)
      case True
      then show ?thesis using blackparent CC by simp
    next
      case False
      with CC cc cr have g: "ccol C1" "C1 \<noteq> Top" by auto
      show ?thesis
      proof (cases C1)
        case Top
        then show ?thesis using g by simp
      next
        case (InL C2 g cg kg vg ut)
        note C1 = this
        have z1: "zr s (InR pl p RED kp vp (InL C2 g BLACK kg vg ut)) (Nd l z RED kz vz r)"
          using zr0 CC C1 False g by simp
        show ?thesis
        proof (cases "col ut")
          case True
          from ifix_rot_RL [OF z1 True] obtain s' where
            r: "rbInsertFixup_loop s (Some z) = ok s'"
              "zr s' C2 (Nd (Nd pl p RED kp vp l) z BLACK kz vz (Nd r g RED kg vg ut))"
              "same s s'"
            by blast
          show ?thesis
            by (rule rot [OF r])
              (use ic ih ch cc cr CC C1 False g True in \<open>auto simp: inord_plug split: if_splits\<close>)
        next
          case ured: False
          then obtain ul u ku vu ur where u: "ut = (Nd ul u RED ku vu ur)"
            using col_red_cases by blast
          from ifix_recolor_RL [OF z1 [unfolded u]] obtain s' where
            r: "rbInsertFixup_loop s (Some z) = rbInsertFixup_loop s' (Some g)"
              "zr s' C2 (Nd (Nd pl p BLACK kp vp (Nd l z RED kz vz r)) g RED kg vg (Nd ul u BLACK ku vu ur))"
              "same s s'"
            by blast
          show ?thesis
            by (rule recolor [OF r])
              (use ic ih ch cc cr CC C1 False g u in \<open>auto simp: inord_plug split: if_splits\<close>)
        qed
      next
        case (InR ut g cg kg vg C2)
        note C1 = this
        have z1: "zr s (InR pl p RED kp vp (InR ut g BLACK kg vg C2)) (Nd l z RED kz vz r)"
          using zr0 CC C1 False g by simp
        show ?thesis
        proof (cases "col ut")
          case True
          from ifix_rot_RR [OF z1 True] obtain s' where
            r: "rbInsertFixup_loop s (Some z) = ok s'"
              "zr s' C2 (Nd (Nd ut g RED kg vg pl) p BLACK kp vp (Nd l z RED kz vz r))"
              "same s s'"
            by blast
          show ?thesis
            by (rule rot [OF r])
              (use ic ih ch cc cr CC C1 False g True in \<open>auto simp: inord_plug split: if_splits\<close>)
        next
          case ured: False
          then obtain ul u ku vu ur where u: "ut = (Nd ul u RED ku vu ur)"
            using col_red_cases by blast
          from ifix_recolor_RR [OF z1 [unfolded u]] obtain s' where
            r: "rbInsertFixup_loop s (Some z) = rbInsertFixup_loop s' (Some g)"
              "zr s' C2 (Nd (Nd ul u BLACK ku vu ur) g RED kg vg (Nd pl p BLACK kp vp (Nd l z RED kz vz r)))"
              "same s s'"
            by blast
          show ?thesis
            by (rule recolor [OF r])
              (use ic ih ch cc cr CC C1 False g u in \<open>auto simp: inord_plug split: if_splits\<close>)
        qed
      qed
    qed
  qed
qed

abbreviation keys :: "('k, 'v) tree \<Rightarrow> 'k list" where
  "keys \<equiv> inord (\<lambda>a c k v. k)"

lemma inord_map: "map g (inord f t) = inord (\<lambda>a c k v. g (f a c k v)) t"
  by (induction t) auto

lemma cbef_map: "map g (cbef f C) = cbef (\<lambda>a c k v. g (f a c k v)) C"
  by (induction C) (auto simp: inord_map)

lemma caft_map: "map g (caft f C) = caft (\<lambda>a c k v. g (f a c k v)) C"
  by (induction C) (auto simp: inord_map)

lemma nodes_addrs: "nodes t' = nodes t \<Longrightarrow> addrs t' = addrs t"
  by (drule arg_cong [where f = "map fst"]) (simp add: inord_map)

lemma nodes_keys: "nodes t' = nodes t \<Longrightarrow> keys t' = keys t"
  by (drule arg_cong [where f = "map (\<lambda>x. fst (snd x))"]) (simp add: inord_map)

lemma inord_paint [simp]: "inord (\<lambda>a c. f a) (paint c' t) = inord (\<lambda>a c. f a) t"
  by (cases t) auto

lemma rootp_paint [simp]: "rootp (paint c t) = rootp t"
  by (cases t) auto

lemma col_paint [simp]: "t \<noteq> Lf \<Longrightarrow> col (paint c t) = c"
  by (cases t) auto

lemma set_color_zr:
  assumes "zr s C (Nd l a c k v r)"
  shows "\<exists>s'. upd (\<lambda>n. n\<lparr>color := c'\<rparr>) s (Some a) = ok s' \<and> zr s' C (Nd l a c' k v r) \<and> same s s'"
  using assms by (cases C) (auto simp: zr_def zrep_def upd_Some same_def)

lemma paint_root_zr:
  assumes "zr s Top t" "t \<noteq> Lf"
  shows "\<exists>s'. upd (\<lambda>n. n\<lparr>color := c\<rparr>) s (root s) = ok s' \<and> zr s' Top (paint c t) \<and> same s s'"
proof -
  obtain l a c0 k v r where t: "t = Nd l a c0 k v r"
    using assms(2) by (cases t) auto
  then have "root s = Some a"
    using assms(1) by (simp add: zr_def zrep_def)
  then show ?thesis
    using set_color_zr [OF assms(1) [unfolded t], of c] t by simp
qed

text \<open>The steps of a context agree with the descent of \<open>Insert\<close> for key \<open>k\<close>.\<close>

fun cpath :: "('k \<Rightarrow> 'k \<Rightarrow> int) \<Rightarrow> 'k \<Rightarrow> ('k, 'v) ctx \<Rightarrow> bool" where
  "cpath cmp k Top = True"
| "cpath cmp k (InL C a c k' v r) = (cmp k k' < 0 \<and> cpath cmp k C)"
| "cpath cmp k (InR l a c k' v C) = (\<not> cmp k k' < 0 \<and> cpath cmp k C)"

lemma Insert_descend_zr:
  assumes "zr s C t" "cpath (keyCmp s) k C"
  shows "\<exists>C'. Insert_descend s k (rootp t) (cpar C) = ok (cpar C') \<and> plug C' Lf = plug C t
    \<and> cpath (keyCmp s) k C'"
  using assms
proof (induction t arbitrary: C)
  case Lf
  then show ?case
    by (subst Insert_descend.simps) auto
next
  case (Nd l a c k' v r)
  have h: "heap s a = Some \<lparr>parent = cpar C, left = rootp l, right = rootp r, color = c,
      key = k', val = v\<rparr>"
    using Nd.prems(1) by (simp add: zr_def zrep_def)
  show ?case
  proof (cases "keyCmp s k k' < 0")
    case True
    have "zr s (InL C a c k' v r) l" "cpath (keyCmp s) k (InL C a c k' v r)"
      using Nd.prems True by (simp_all add: zr_InL)
    from Nd.IH(1) [OF this] show ?thesis
      using h True by (subst Insert_descend.simps) (simp add: fld_Some)
  next
    case False
    have "zr s (InR l a c k' v C) r" "cpath (keyCmp s) k (InR l a c k' v C)"
      using Nd.prems False by (simp_all add: zr_InR)
    from Nd.IH(2) [OF this] show ?thesis
      using h False by (subst Insert_descend.simps) (simp add: fld_Some)
  qed
qed


section \<open>Comparators and ordered trees\<close>

text \<open>
  A valid comparator: the sign of \<open>cmp a b\<close> is the opposite of the sign of \<open>cmp b a\<close>,
  and "not greater" is transitive.
\<close>

definition valid_cmp :: "('k \<Rightarrow> 'k \<Rightarrow> int) \<Rightarrow> bool" where
  "valid_cmp cmp = ((\<forall>a b. (cmp a b < 0) = (cmp b a > 0))
     \<and> (\<forall>a b c. cmp a b \<le> 0 \<longrightarrow> cmp b c \<le> 0 \<longrightarrow> cmp a c \<le> 0))"

abbreviation ksorted :: "('k \<Rightarrow> 'k \<Rightarrow> int) \<Rightarrow> 'k list \<Rightarrow> bool" where
  "ksorted cmp \<equiv> sorted_wrt (\<lambda>a b. cmp a b \<le> 0)"

lemma cmp_flip:
  assumes "valid_cmp cmp"
  shows "(cmp a b \<le> 0) = (cmp b a \<ge> 0)"
proof -
  have "(cmp b a < 0) = (cmp a b > 0)"
    using assms unfolding valid_cmp_def by blast
  then show ?thesis by linarith
qed

lemma cmp_flip_lt: "valid_cmp cmp \<Longrightarrow> (cmp a b < 0) = (cmp b a > 0)"
  unfolding valid_cmp_def by blast

lemma cmp_le_trans: "valid_cmp cmp \<Longrightarrow> cmp a b \<le> 0 \<Longrightarrow> cmp b c \<le> 0 \<Longrightarrow> cmp a c \<le> 0"
  unfolding valid_cmp_def by blast

lemma cmp_lt_le_trans:
  assumes "valid_cmp cmp" "cmp a b < 0" "cmp b c \<le> 0"
  shows "cmp a c < 0"
proof (rule ccontr)
  assume "\<not> cmp a c < 0"
  then have "cmp a c \<ge> 0" by linarith
  then have "cmp c a \<le> 0" by (rule cmp_flip [OF assms(1), THEN iffD2])
  with assms(3) have "cmp b a \<le> 0" by (rule cmp_le_trans [OF assms(1)])
  then have "cmp a b \<ge> 0" by (rule cmp_flip [OF assms(1), THEN iffD1])
  with assms(2) show False by linarith
qed

lemma cmp_le_lt_trans:
  assumes "valid_cmp cmp" "cmp a b \<le> 0" "cmp b c < 0"
  shows "cmp a c < 0"
proof (rule ccontr)
  assume "\<not> cmp a c < 0"
  then have "cmp a c \<ge> 0" by linarith
  then have "cmp c a \<le> 0" by (rule cmp_flip [OF assms(1), THEN iffD2])
  from this assms(2) have "cmp c b \<le> 0" by (rule cmp_le_trans [OF assms(1)])
  then have "cmp b c \<ge> 0" by (rule cmp_flip [OF assms(1), THEN iffD1])
  with assms(3) show False by linarith
qed

lemma cmp_refl:
  assumes "valid_cmp cmp"
  shows "cmp a a = 0"
proof -
  have "(cmp a a < 0) = (cmp a a > 0)"
    using assms unfolding valid_cmp_def by blast
  then show ?thesis by linarith
qed

lemma cpath_bounds:
  assumes "valid_cmp cmp" "ksorted cmp (keys (plug C t))" "cpath cmp k C"
  shows "(\<forall>x\<in>set (cbef (\<lambda>a c k v. k) C). \<not> cmp k x < 0)
       \<and> (\<forall>x\<in>set (caft (\<lambda>a c k v. k) C). cmp k x < 0)"
  using assms(2,3)
proof (induction C arbitrary: t)
  case Top
  then show ?case by simp
next
  case (InL C a c k' v r)
  have "ksorted cmp (keys (plug C (Nd t a c k' v r)))" "cpath cmp k C"
    using InL.prems by simp_all
  from InL.IH [OF this]
  have ih: "\<forall>x\<in>set (cbef (\<lambda>a c k v. k) C). \<not> cmp k x < 0"
    "\<forall>x\<in>set (caft (\<lambda>a c k v. k) C). cmp k x < 0"
    by simp_all
  have kk: "cmp k k' < 0" using InL.prems(2) by simp
  have "\<forall>x\<in>set (keys r). cmp k' x \<le> 0"
    using InL.prems(1) by (simp add: inord_plug sorted_wrt_append)
  then have "\<forall>x\<in>set (keys r). cmp k x < 0"
    using cmp_lt_le_trans [OF assms(1) kk] by blast
  then show ?case using ih kk by auto
next
  case (InR l a c k' v C)
  have "ksorted cmp (keys (plug C (Nd l a c k' v t)))" "cpath cmp k C"
    using InR.prems by simp_all
  from InR.IH [OF this]
  have ih: "\<forall>x\<in>set (cbef (\<lambda>a c k v. k) C). \<not> cmp k x < 0"
    "\<forall>x\<in>set (caft (\<lambda>a c k v. k) C). cmp k x < 0"
    by simp_all
  have kk: "\<not> cmp k k' < 0" using InR.prems(2) by simp
  then have "cmp k k' \<ge> 0" by linarith
  then have k'k: "cmp k' k \<le> 0" by (rule cmp_flip [OF assms(1), THEN iffD2])
  have "\<forall>x\<in>set (keys l). cmp x k' \<le> 0"
    using InR.prems(1) by (simp add: inord_plug sorted_wrt_append)
  then have "\<forall>x\<in>set (keys l). cmp x k \<le> 0"
    using cmp_le_trans [OF assms(1) _ k'k] by blast
  then have "\<forall>x\<in>set (keys l). cmp k x \<ge> 0"
    using cmp_flip [OF assms(1), THEN iffD1] by blast
  then have "\<forall>x\<in>set (keys l). \<not> cmp k x < 0"
    by fastforce
  then show ?case using ih kk by auto
qed

lemma ksorted_insert:
  assumes "valid_cmp cmp" "ksorted cmp (xs @ ys)"
    "\<forall>x\<in>set xs. \<not> cmp k x < 0" "\<forall>x\<in>set ys. cmp k x < 0"
  shows "ksorted cmp (xs @ k # ys)"
proof -
  have "\<forall>x\<in>set xs. cmp k x \<ge> 0"
    using assms(3) by fastforce
  then have "\<forall>x\<in>set xs. cmp x k \<le> 0"
    using cmp_flip [OF assms(1), THEN iffD2] by blast
  moreover have "\<forall>x\<in>set ys. cmp k x \<le> 0"
    using assms(4) by fastforce
  ultimately show ?thesis
    using assms(2) by (simp add: sorted_wrt_append)
qed

section \<open>The invariant of the tree\<close>

definition rbt :: "('k, 'v) tree \<Rightarrow> bool" where
  "rbt t = (invh t \<and> invc t \<and> col t)"

definition Inv :: "('k, 'v) RbTree \<Rightarrow> ('k, 'v) tree \<Rightarrow> bool" where
  "Inv s t = (zr s Top t \<and> rbt t \<and> valid_cmp (keyCmp s) \<and> ksorted (keyCmp s) (keys t)
     \<and> tsize s = int (length (addrs t)) \<and> (\<forall>a\<in>set (addrs t). a < nxt s))"

lemma cpar_None [simp]: "(cpar C = None) = (C = Top)"
  by (cases C) auto

lemma Insert_link:
  assumes "zr s C Lf" "cpath (keyCmp s) k C" "C \<noteq> Top" "\<forall>a\<in>set (cbefa C @ cafta C). a < nxt s"
    "Insert_descend s k (root s) None = ok (cpar C)"
  shows "\<exists>s2. Insert s k v = rbInsertFixup s2 (Some (nxt s))
     \<and> zr s2 C (Nd Lf (nxt s) RED k v Lf)
     \<and> nxt s2 = Suc (nxt s) \<and> tsize s2 = tsize s + 1 \<and> keyCmp s2 = keyCmp s"
proof -
  have fresh: "nxt s \<notin> set (cbefa C)" "nxt s \<notin> set (cafta C)"
    using assms(4) by auto
  show ?thesis
    using assms(1,2,3) fresh
    apply (simp add: Insert_def assms(5) Let_def)
    apply (cases C)
    apply (auto simp: zr_def zrep_def fld_Some upd_Some fld_def upd_def store_def)
    done
qed


lemma nodes_paint [simp]: "nodes (paint c t) = nodes t"
  by (cases t) auto

lemma keys_paint [simp]: "keys (paint c t) = keys t"
  by (cases t) auto

lemma addrs_paint [simp]: "addrs (paint c t) = addrs t"
  by (cases t) auto

lemma nodes_split_keys:
  assumes "nodes t = xs @ ys"
  shows "keys t = map (\<lambda>x. fst (snd x)) xs @ map (\<lambda>x. fst (snd x)) ys"
  using arg_cong [OF assms, of "map (\<lambda>x. fst (snd x))"] by (simp add: inord_map)

lemma nodes_split_addrs:
  assumes "nodes t = xs @ ys"
  shows "addrs t = map fst xs @ map fst ys"
  using arg_cong [OF assms, of "map fst"] by (simp add: inord_map)

lemma Insert_empty:
  assumes "root s = None"
  shows "Insert s k v = ok (s\<lparr>heap := (heap s)(nxt s \<mapsto>
      \<lparr>parent = None, left = None, right = None, color = BLACK, key = k, val = v\<rparr>),
      nxt := Suc (nxt s), tsize := tsize s + 1, root := Some (nxt s)\<rparr>)"
proof -
  have "Insert_descend s k None None = ok None"
    by (subst Insert_descend.simps) simp
  then show ?thesis
    using assms by (simp add: Insert_def Let_def upd_def store_def)
qed


lemma Insert_Inv:
  assumes "Inv s t"
  shows "\<exists>s' t' xs ys. Insert s k v = ok s' \<and> Inv s' t'
      \<and> nodes t = xs @ ys \<and> nodes t' = xs @ (nxt s, k, v) # ys
      \<and> (\<forall>x\<in>set xs. \<not> keyCmp s k (fst (snd x)) < 0)
      \<and> (\<forall>x\<in>set ys. keyCmp s k (fst (snd x)) < 0)
      \<and> keyCmp s' = keyCmp s \<and> nxt s' = Suc (nxt s) \<and> tsize s' = tsize s + 1"
proof -
  from assms have z0: "zr s Top t" and rb: "invh t" "invc t" "col t"
    and vc: "valid_cmp (keyCmp s)" and so: "ksorted (keyCmp s) (keys t)"
    and sz: "tsize s = int (length (addrs t))" and fr: "\<forall>a\<in>set (addrs t). a < nxt s"
    by (simp_all add: Inv_def rbt_def)
  have rt: "root s = rootp t"
    using z0 by (simp add: zr_def zrep_def)
  from Insert_descend_zr [OF z0, of k] obtain C where
    d: "Insert_descend s k (rootp t) None = ok (cpar C)" and pl: "plug C Lf = t"
    and cp: "cpath (keyCmp s) k C"
    by auto
  let ?z = "nxt s"
  let ?xs = "cbef (\<lambda>a c k v. (a, k, v)) C" and ?ys = "caft (\<lambda>a c k v. (a, k, v)) C"
  have nt: "nodes t = ?xs @ ?ys"
    using pl inord_plug [of "\<lambda>a c k v. (a, k, v)" C Lf] by simp
  have "ksorted (keyCmp s) (keys (plug C Lf))"
    using so pl by simp
  from cpath_bounds [OF vc this cp]
  have "\<forall>x\<in>set (map (\<lambda>x. fst (snd x)) ?xs). \<not> keyCmp s k x < 0"
    "\<forall>x\<in>set (map (\<lambda>x. fst (snd x)) ?ys). keyCmp s k x < 0"
    by (simp_all add: cbef_map caft_map)
  then have bnd: "\<forall>x\<in>set ?xs. \<not> keyCmp s k (fst (snd x)) < 0"
    "\<forall>x\<in>set ?ys. keyCmp s k (fst (snd x)) < 0"
    by simp_all
  have so': "ksorted (keyCmp s) (map (\<lambda>x. fst (snd x)) ?xs @ k # map (\<lambda>x. fst (snd x)) ?ys)"
    by (rule ksorted_insert [OF vc])
      (use so bnd nodes_split_keys [OF nt] in auto)
  show ?thesis
  proof (cases "C = Top")
    case True
    then have t: "t = Lf" using pl by simp
    let ?s' = "s\<lparr>heap := (heap s)(nxt s \<mapsto>
      \<lparr>parent = None, left = None, right = None, color = BLACK, key = k, val = v\<rparr>),
      nxt := Suc (nxt s), tsize := tsize s + 1, root := Some (nxt s)\<rparr>"
    have i: "Insert s k v = ok ?s'"
      using rt t by (simp add: Insert_empty)
    have "Inv ?s' (Nd Lf ?z BLACK k v Lf)"
      using vc sz t by (simp add: Inv_def zr_def zrep_def rbt_def)
    then show ?thesis
      using i t True
      by (intro exI [of _ ?s'] exI [of _ "Nd Lf ?z BLACK k v Lf"] exI [of _ "[]"]) simp
  next
    case False
    have zc: "zr s C Lf"
      using z0 pl zr_plug [of s C Lf] by simp
    have "\<forall>a\<in>set (cbefa C @ cafta C). a < nxt s"
      using fr pl inord_plug [of "\<lambda>a c k v. a" C Lf] by auto
    from Insert_link [OF zc cp False this d [folded rt], of v] obtain s2 where
      s2: "Insert s k v = rbInsertFixup s2 (Some ?z)" "zr s2 C (Nd Lf ?z RED k v Lf)"
      "nxt s2 = Suc (nxt s)" "tsize s2 = tsize s + 1" "keyCmp s2 = keyCmp s"
      by blast
    have ci: "cinvh C 0" "cinvc C" "crootb C"
      using rb pl invh_plug [of C Lf] invc_plug [of C Lf] col_plug [OF False, of Lf]
      by auto
    have "\<exists>s' t'. rbInsertFixup_loop s2 (Some ?z) = ok s' \<and> zr s' Top t' \<and> t' \<noteq> Lf
      \<and> invh t' \<and> invc (paint BLACK t')
      \<and> nodes t' = nodes (plug C (Nd Lf ?z RED k v Lf)) \<and> same s2 s'"
      by (rule ifix_loop [OF s2(2)]) (use ci in simp_all)
    then obtain s3 t3 where s3: "rbInsertFixup_loop s2 (Some ?z) = ok s3" "zr s3 Top t3"
      "t3 \<noteq> Lf" "invh t3" "invc (paint BLACK t3)"
      "nodes t3 = nodes (plug C (Nd Lf ?z RED k v Lf))" "same s2 s3"
      by blast
    from paint_root_zr [OF s3(2,3), of BLACK] obtain s4 where
      s4: "upd (\<lambda>n. n\<lparr>color := BLACK\<rparr>) s3 (root s3) = ok s4" "zr s4 Top (paint BLACK t3)"
      "same s3 s4"
      by blast
    have i: "Insert s k v = ok s4"
      using s2(1) s3(1) s4(1) by (simp add: rbInsertFixup_def)
    have n3: "nodes t3 = ?xs @ (?z, k, v) # ?ys"
      using s3(6) by (simp add: inord_plug)
    have k3: "keys t3 = map (\<lambda>x. fst (snd x)) ?xs @ k # map (\<lambda>x. fst (snd x)) ?ys"
      using nodes_split_keys [of t3 ?xs "(?z, k, v) # ?ys"] n3 by simp
    have a3: "addrs t3 = map fst ?xs @ ?z # map fst ?ys"
      using nodes_split_addrs [of t3 ?xs "(?z, k, v) # ?ys"] n3 by simp
    have a0: "addrs t = map fst ?xs @ map fst ?ys"
      using nodes_split_addrs [OF nt] .
    have m: "nxt s4 = Suc (nxt s)" "tsize s4 = tsize s + 1" "keyCmp s4 = keyCmp s"
      using s2(3-5) s3(7) s4(3) by (simp_all add: same_def)
    have "Inv s4 (paint BLACK t3)"
      unfolding Inv_def rbt_def
      using s4(2) s3(3,4,5) vc so' k3 a3 a0 m sz fr
      by (auto simp: less_Suc_eq)
    then show ?thesis
      using i nt n3 bnd m
      by (intro exI [of _ s4] exI [of _ "paint BLACK t3"] exI [of _ ?xs] exI [of _ ?ys]) simp
  qed
qed

section \<open>Delete fixup: the steps on the store\<close>

text \<open>The part of \<open>rbFixupLeft\<close> after the red-sibling block, and that of \<open>rbFixupRight\<close>.\<close>

definition rbFixupLeft_tail :: "('k, 'v) RbTree \<Rightarrow> addr option \<Rightarrow> addr option
    \<Rightarrow> (('k, 'v) RbTree \<times> addr option \<times> addr option) res" where
  "rbFixupLeft_tail t par w =
     bindR (fld left (heap t) w) (\<lambda>wl.
     bindR (getColor (heap t) wl) (\<lambda>wlc.
     bindR (if wlc then bindR (fld right (heap t) w) (\<lambda>wr. getColor (heap t) wr)
            else ok False) (\<lambda>both.
     if both then
       bindR (upd (\<lambda>n. n\<lparr>color := RED\<rparr>) t w) (\<lambda>t. ok (t, par, w))
     else
       bindR (fld right (heap t) w) (\<lambda>wr.
       bindR (getColor (heap t) wr) (\<lambda>wrc.
       bindR (if wrc then
                bindR (fld left (heap t) w) (\<lambda>wl.
                bindR (if wl \<noteq> None then upd (\<lambda>n. n\<lparr>color := BLACK\<rparr>) t wl else ok t) (\<lambda>t.
                bindR (upd (\<lambda>n. n\<lparr>color := RED\<rparr>) t w) (\<lambda>t.
                bindR (rightRotate t w) (\<lambda>t.
                bindR (fld right (heap t) par) (\<lambda>w. ok (t, w))))))
              else ok (t, w)) (\<lambda>(t, w).
       bindR (fld color (heap t) par) (\<lambda>pc.
       bindR (upd (\<lambda>n. n\<lparr>color := pc\<rparr>) t w) (\<lambda>t.
       bindR (upd (\<lambda>n. n\<lparr>color := BLACK\<rparr>) t par) (\<lambda>t.
       bindR (fld right (heap t) w) (\<lambda>wr.
       bindR (if wr \<noteq> None then upd (\<lambda>n. n\<lparr>color := BLACK\<rparr>) t wr else ok t) (\<lambda>t.
       bindR (leftRotate t par) (\<lambda>t.
       ok (t, root t, w)))))))))))))"

definition rbFixupRight_tail :: "('k, 'v) RbTree \<Rightarrow> addr option \<Rightarrow> addr option
    \<Rightarrow> (('k, 'v) RbTree \<times> addr option \<times> addr option) res" where
  "rbFixupRight_tail t par w =
     bindR (fld left (heap t) w) (\<lambda>wl.
     bindR (getColor (heap t) wl) (\<lambda>wlc.
     bindR (if wlc then bindR (fld right (heap t) w) (\<lambda>wr. getColor (heap t) wr)
            else ok False) (\<lambda>both.
     if both then
       bindR (upd (\<lambda>n. n\<lparr>color := RED\<rparr>) t w) (\<lambda>t. ok (t, par, w))
     else
       bindR (fld left (heap t) w) (\<lambda>wl.
       bindR (getColor (heap t) wl) (\<lambda>wlc.
       bindR (if wlc then
                bindR (fld right (heap t) w) (\<lambda>wr.
                bindR (if wr \<noteq> None then upd (\<lambda>n. n\<lparr>color := BLACK\<rparr>) t wr else ok t) (\<lambda>t.
                bindR (upd (\<lambda>n. n\<lparr>color := RED\<rparr>) t w) (\<lambda>t.
                bindR (leftRotate t w) (\<lambda>t.
                bindR (fld left (heap t) par) (\<lambda>w. ok (t, w))))))
              else ok (t, w)) (\<lambda>(t, w).
       bindR (fld color (heap t) par) (\<lambda>pc.
       bindR (upd (\<lambda>n. n\<lparr>color := pc\<rparr>) t w) (\<lambda>t.
       bindR (upd (\<lambda>n. n\<lparr>color := BLACK\<rparr>) t par) (\<lambda>t.
       bindR (fld left (heap t) w) (\<lambda>wl.
       bindR (if wl \<noteq> None then upd (\<lambda>n. n\<lparr>color := BLACK\<rparr>) t wl else ok t) (\<lambda>t.
       bindR (rightRotate t par) (\<lambda>t.
       ok (t, root t, w)))))))))))))"

definition rbFixupLeft_case4 :: "('k, 'v) RbTree \<Rightarrow> addr option \<Rightarrow> addr option
    \<Rightarrow> (('k, 'v) RbTree \<times> addr option \<times> addr option) res" where
  "rbFixupLeft_case4 t par w =
       bindR (fld color (heap t) par) (\<lambda>pc.
       bindR (upd (\<lambda>n. n\<lparr>color := pc\<rparr>) t w) (\<lambda>t.
       bindR (upd (\<lambda>n. n\<lparr>color := BLACK\<rparr>) t par) (\<lambda>t.
       bindR (fld right (heap t) w) (\<lambda>wr.
       bindR (if wr \<noteq> None then upd (\<lambda>n. n\<lparr>color := BLACK\<rparr>) t wr else ok t) (\<lambda>t.
       bindR (leftRotate t par) (\<lambda>t.
       ok (t, root t, w)))))))"

definition rbFixupRight_case4 :: "('k, 'v) RbTree \<Rightarrow> addr option \<Rightarrow> addr option
    \<Rightarrow> (('k, 'v) RbTree \<times> addr option \<times> addr option) res" where
  "rbFixupRight_case4 t par w =
       bindR (fld color (heap t) par) (\<lambda>pc.
       bindR (upd (\<lambda>n. n\<lparr>color := pc\<rparr>) t w) (\<lambda>t.
       bindR (upd (\<lambda>n. n\<lparr>color := BLACK\<rparr>) t par) (\<lambda>t.
       bindR (fld left (heap t) w) (\<lambda>wl.
       bindR (if wl \<noteq> None then upd (\<lambda>n. n\<lparr>color := BLACK\<rparr>) t wl else ok t) (\<lambda>t.
       bindR (rightRotate t par) (\<lambda>t.
       ok (t, root t, w)))))))"

lemma rbFixupLeft_tail_split:
  "rbFixupLeft_tail t par w =
     bindR (fld left (heap t) w) (\<lambda>wl.
     bindR (getColor (heap t) wl) (\<lambda>wlc.
     bindR (if wlc then bindR (fld right (heap t) w) (\<lambda>wr. getColor (heap t) wr)
            else ok False) (\<lambda>both.
     if both then
       bindR (upd (\<lambda>n. n\<lparr>color := RED\<rparr>) t w) (\<lambda>t. ok (t, par, w))
     else
       bindR (fld right (heap t) w) (\<lambda>wr.
       bindR (getColor (heap t) wr) (\<lambda>wrc.
       bindR (if wrc then
                bindR (fld left (heap t) w) (\<lambda>wl.
                bindR (if wl \<noteq> None then upd (\<lambda>n. n\<lparr>color := BLACK\<rparr>) t wl else ok t) (\<lambda>t.
                bindR (upd (\<lambda>n. n\<lparr>color := RED\<rparr>) t w) (\<lambda>t.
                bindR (rightRotate t w) (\<lambda>t.
                bindR (fld right (heap t) par) (\<lambda>w. ok (t, w))))))
              else ok (t, w)) (\<lambda>(t, w). rbFixupLeft_case4 t par w))))))"
  unfolding rbFixupLeft_tail_def rbFixupLeft_case4_def by (rule refl)

lemma rbFixupRight_tail_split:
  "rbFixupRight_tail t par w =
     bindR (fld left (heap t) w) (\<lambda>wl.
     bindR (getColor (heap t) wl) (\<lambda>wlc.
     bindR (if wlc then bindR (fld right (heap t) w) (\<lambda>wr. getColor (heap t) wr)
            else ok False) (\<lambda>both.
     if both then
       bindR (upd (\<lambda>n. n\<lparr>color := RED\<rparr>) t w) (\<lambda>t. ok (t, par, w))
     else
       bindR (fld left (heap t) w) (\<lambda>wl.
       bindR (getColor (heap t) wl) (\<lambda>wlc.
       bindR (if wlc then
                bindR (fld right (heap t) w) (\<lambda>wr.
                bindR (if wr \<noteq> None then upd (\<lambda>n. n\<lparr>color := BLACK\<rparr>) t wr else ok t) (\<lambda>t.
                bindR (upd (\<lambda>n. n\<lparr>color := RED\<rparr>) t w) (\<lambda>t.
                bindR (leftRotate t w) (\<lambda>t.
                bindR (fld left (heap t) par) (\<lambda>w. ok (t, w))))))
              else ok (t, w)) (\<lambda>(t, w). rbFixupRight_case4 t par w))))))"
  unfolding rbFixupRight_tail_def rbFixupRight_case4_def by (rule refl)

lemma rbFixupLeft_split:
  "rbFixupLeft t x par w0 =
     bindR (fld right (heap t) par) (\<lambda>w.
     bindR (fld color (heap t) w) (\<lambda>wc.
     bindR (if \<not> wc then
              bindR (upd (\<lambda>n. n\<lparr>color := BLACK\<rparr>) t w) (\<lambda>t.
              bindR (upd (\<lambda>n. n\<lparr>color := RED\<rparr>) t par) (\<lambda>t.
              bindR (leftRotate t par) (\<lambda>t.
              bindR (fld right (heap t) par) (\<lambda>w. ok (t, w)))))
            else ok (t, w)) (\<lambda>(t, w). rbFixupLeft_tail t par w)))"
  by (simp add: rbFixupLeft_def rbFixupLeft_tail_def)

lemma rbFixupRight_split:
  "rbFixupRight t x par w0 =
     bindR (fld left (heap t) par) (\<lambda>w.
     bindR (fld color (heap t) w) (\<lambda>wc.
     bindR (if \<not> wc then
              bindR (upd (\<lambda>n. n\<lparr>color := BLACK\<rparr>) t w) (\<lambda>t.
              bindR (upd (\<lambda>n. n\<lparr>color := RED\<rparr>) t par) (\<lambda>t.
              bindR (rightRotate t par) (\<lambda>t.
              bindR (fld left (heap t) par) (\<lambda>w. ok (t, w)))))
            else ok (t, w)) (\<lambda>(t, w). rbFixupRight_tail t par w)))"
  by (simp add: rbFixupRight_def rbFixupRight_tail_def)

lemma getColor_rootp:
  "repr h par t \<Longrightarrow> getColor h (rootp t) = ok (col t)"
  by (cases t) (auto simp: getColor_def fld_Some)

lemma dfixL_head_black:
  assumes "zr s (InL C p cp kp vp (Nd sl w BLACK kw vw sr)) xt"
  shows "rbFixupLeft s x (Some p) w0 = rbFixupLeft_tail s (Some p) (Some w)"
  using assms by (simp add: rbFixupLeft_split zr_def zrep_def fld_Some)

lemma dfixR_head_black:
  assumes "zr s (InR (Nd sl w BLACK kw vw sr) p cp kp vp C) xt"
  shows "rbFixupRight s x (Some p) w0 = rbFixupRight_tail s (Some p) (Some w)"
  using assms by (simp add: rbFixupRight_split zr_def zrep_def fld_Some)

lemma dfixL_case2:
  assumes "zr s (InL C p cp kp vp (Nd sl w BLACK kw vw sr)) xt" "col sl" "col sr"
  shows "\<exists>s'. rbFixupLeft_tail s (Some p) (Some w) = ok (s', Some p, Some w)
    \<and> zr s' C (Nd xt p cp kp vp (Nd sl w RED kw vw sr)) \<and> same s s'"
  using assms
  by (auto simp: rbFixupLeft_tail_def zr_def zrep_def fld_Some upd_Some getColor_rootp same_def)

lemma dfixR_case2:
  assumes "zr s (InR (Nd sl w BLACK kw vw sr) p cp kp vp C) xt" "col sl" "col sr"
  shows "\<exists>s'. rbFixupRight_tail s (Some p) (Some w) = ok (s', Some p, Some w)
    \<and> zr s' C (Nd (Nd sl w RED kw vw sr) p cp kp vp xt) \<and> same s s'"
  using assms
  by (auto simp: rbFixupRight_tail_def zr_def zrep_def fld_Some upd_Some getColor_rootp same_def)


lemma dfixL_case4_core:
  assumes "zr s (InL C p cp kp vp (Nd sl w cw kw vw (Nd a f cf kf vf b))) xt"
  shows "\<exists>s'. rbFixupLeft_case4 s (Some p) (Some w) = ok (s', root s', Some w)
    \<and> zr s' C (Nd (Nd xt p BLACK kp vp sl) w cp kw vw (Nd a f BLACK kf vf b)) \<and> same s s'"
proof -
  have "\<exists>s1. rbFixupLeft_case4 s (Some p) (Some w)
        = bindR (leftRotate s1 (Some p)) (\<lambda>t. ok (t, root t, Some w))
      \<and> zr s1 C (Nd xt p BLACK kp vp (Nd sl w cp kw vw (Nd a f BLACK kf vf b))) \<and> same s s1"
    using assms
    apply (clarsimp simp: rbFixupLeft_case4_def zr_def zrep_def fld_Some upd_Some)
    apply (rule exI, rule conjI, rule refl)
    apply (auto simp: same_def)
    done
  then obtain s1 where a: "rbFixupLeft_case4 s (Some p) (Some w)
        = bindR (leftRotate s1 (Some p)) (\<lambda>t. ok (t, root t, Some w))"
      "zr s1 C (Nd xt p BLACK kp vp (Nd sl w cp kw vw (Nd a f BLACK kf vf b)))" "same s s1"
    by blast
  from leftRotate_zr [OF a(2)] obtain s2 where b: "leftRotate s1 (Some p) = ok s2"
    "zr s2 C (Nd (Nd xt p BLACK kp vp sl) w cp kw vw (Nd a f BLACK kf vf b))" "same s1 s2"
    by blast
  show ?thesis
    using a b same_trans by fastforce
qed

lemma dfixR_case4_core:
  assumes "zr s (InR (Nd (Nd a f cf kf vf b) w cw kw vw sr) p cp kp vp C) xt"
  shows "\<exists>s'. rbFixupRight_case4 s (Some p) (Some w) = ok (s', root s', Some w)
    \<and> zr s' C (Nd (Nd a f BLACK kf vf b) w cp kw vw (Nd sr p BLACK kp vp xt)) \<and> same s s'"
proof -
  have "\<exists>s1. rbFixupRight_case4 s (Some p) (Some w)
        = bindR (rightRotate s1 (Some p)) (\<lambda>t. ok (t, root t, Some w))
      \<and> zr s1 C (Nd (Nd (Nd a f BLACK kf vf b) w cp kw vw sr) p BLACK kp vp xt) \<and> same s s1"
    using assms
    apply (clarsimp simp: rbFixupRight_case4_def zr_def zrep_def fld_Some upd_Some)
    apply (rule exI, rule conjI, rule refl)
    apply (auto simp: same_def)
    done
  then obtain s1 where a: "rbFixupRight_case4 s (Some p) (Some w)
        = bindR (rightRotate s1 (Some p)) (\<lambda>t. ok (t, root t, Some w))"
      "zr s1 C (Nd (Nd (Nd a f BLACK kf vf b) w cp kw vw sr) p BLACK kp vp xt)" "same s s1"
    by blast
  from rightRotate_zr [OF a(2)] obtain s2 where b: "rightRotate s1 (Some p) = ok s2"
    "zr s2 C (Nd (Nd a f BLACK kf vf b) w cp kw vw (Nd sr p BLACK kp vp xt))" "same s1 s2"
    by blast
  show ?thesis
    using a b same_trans by fastforce
qed

lemma dfixL_tail_case4:
  assumes "zr s (InL C p cp kp vp (Nd sl w BLACK kw vw (Nd a f RED kf vf b))) xt"
  shows "rbFixupLeft_tail s (Some p) (Some w) = rbFixupLeft_case4 s (Some p) (Some w)"
  using assms
  by (cases sl)
    (auto simp: rbFixupLeft_tail_split zr_def zrep_def fld_Some getColor_def)

lemma dfixR_tail_case4:
  assumes "zr s (InR (Nd (Nd a f RED kf vf b) w BLACK kw vw sr) p cp kp vp C) xt"
  shows "rbFixupRight_tail s (Some p) (Some w) = rbFixupRight_case4 s (Some p) (Some w)"
  using assms
  by (auto simp: rbFixupRight_tail_split zr_def zrep_def fld_Some getColor_def)


lemma dfixL_tail_case3:
  assumes z0: "zr s (InL C p cp kp vp (Nd (Nd a n RED kn vn b) w BLACK kw vw sr)) xt" and "col sr"
  shows "\<exists>s1. rbFixupLeft_tail s (Some p) (Some w) = rbFixupLeft_case4 s1 (Some p) (Some n)
    \<and> zr s1 (InL C p cp kp vp (Nd a n BLACK kn vn (Nd b w RED kw vw sr))) xt \<and> same s s1"
proof -
  have "zr s (InL (InR xt p cp kp vp C) w BLACK kw vw sr) (Nd a n RED kn vn b)"
    using z0 by (simp add: zr_InL zr_InR)
  from set_color_zr [OF this, of BLACK] obtain sa where
    a: "upd (\<lambda>n. n\<lparr>color := BLACK\<rparr>) s (Some n) = ok sa"
    "zr sa (InL (InR xt p cp kp vp C) w BLACK kw vw sr) (Nd a n BLACK kn vn b)" "same s sa"
    by blast
  have "zr sa (InR xt p cp kp vp C) (Nd (Nd a n BLACK kn vn b) w BLACK kw vw sr)"
    using a(2) by (simp add: zr_InL zr_InR)
  from set_color_zr [OF this, of RED] obtain sb where
    b: "upd (\<lambda>n. n\<lparr>color := RED\<rparr>) sa (Some w) = ok sb"
    "zr sb (InR xt p cp kp vp C) (Nd (Nd a n BLACK kn vn b) w RED kw vw sr)" "same sa sb"
    by blast
  from rightRotate_zr [OF b(2)] obtain sc where
    c: "rightRotate sb (Some w) = ok sc"
    "zr sc (InR xt p cp kp vp C) (Nd a n BLACK kn vn (Nd b w RED kw vw sr))" "same sb sc"
    by blast
  have c': "zr sc (InL C p cp kp vp (Nd a n BLACK kn vn (Nd b w RED kw vw sr))) xt"
    using c(2) by (simp add: zr_InL zr_InR)
  have hp: "heap sc p = Some \<lparr>parent = cpar C, left = rootp xt, right = Some n, color = cp,
      key = kp, val = vp\<rparr>"
    using c' by (simp add: zr_def zrep_def)
  have "rbFixupLeft_tail s (Some p) (Some w) = rbFixupLeft_case4 sc (Some p) (Some n)"
    using z0 \<open>col sr\<close>
    by (cases sr)
      (simp_all add: rbFixupLeft_tail_split zr_def zrep_def fld_Some getColor_def
        a(1) b(1) c(1) hp)
  then show ?thesis
    using c' a(3) b(3) c(3) same_trans by blast
qed

lemma dfixR_tail_case3:
  assumes z0: "zr s (InR (Nd sl w BLACK kw vw (Nd a n RED kn vn b)) p cp kp vp C) xt" and "col sl"
  shows "\<exists>s1. rbFixupRight_tail s (Some p) (Some w) = rbFixupRight_case4 s1 (Some p) (Some n)
    \<and> zr s1 (InR (Nd (Nd sl w RED kw vw a) n BLACK kn vn b) p cp kp vp C) xt \<and> same s s1"
proof -
  have "zr s (InR sl w BLACK kw vw (InL C p cp kp vp xt)) (Nd a n RED kn vn b)"
    using z0 by (simp add: zr_InL zr_InR)
  from set_color_zr [OF this, of BLACK] obtain sa where
    a: "upd (\<lambda>n. n\<lparr>color := BLACK\<rparr>) s (Some n) = ok sa"
    "zr sa (InR sl w BLACK kw vw (InL C p cp kp vp xt)) (Nd a n BLACK kn vn b)" "same s sa"
    by blast
  have "zr sa (InL C p cp kp vp xt) (Nd sl w BLACK kw vw (Nd a n BLACK kn vn b))"
    using a(2) by (simp add: zr_InL zr_InR)
  from set_color_zr [OF this, of RED] obtain sb where
    b: "upd (\<lambda>n. n\<lparr>color := RED\<rparr>) sa (Some w) = ok sb"
    "zr sb (InL C p cp kp vp xt) (Nd sl w RED kw vw (Nd a n BLACK kn vn b))" "same sa sb"
    by blast
  from leftRotate_zr [OF b(2)] obtain sc where
    c: "leftRotate sb (Some w) = ok sc"
    "zr sc (InL C p cp kp vp xt) (Nd (Nd sl w RED kw vw a) n BLACK kn vn b)" "same sb sc"
    by blast
  have c': "zr sc (InR (Nd (Nd sl w RED kw vw a) n BLACK kn vn b) p cp kp vp C) xt"
    using c(2) by (simp add: zr_InL zr_InR)
  have hp: "heap sc p = Some \<lparr>parent = cpar C, left = Some n, right = rootp xt, color = cp,
      key = kp, val = vp\<rparr>"
    using c' by (simp add: zr_def zrep_def)
  have "rbFixupRight_tail s (Some p) (Some w) = rbFixupRight_case4 sc (Some p) (Some n)"
    using z0 \<open>col sl\<close>
    by (cases sl)
      (simp_all add: rbFixupRight_tail_split zr_def zrep_def fld_Some getColor_def
        a(1) b(1) c(1) hp)
  then show ?thesis
    using c' a(3) b(3) c(3) same_trans by blast
qed

lemma dfixL_head_red:
  assumes z0: "zr s (InL C p cp kp vp (Nd wl w RED kw vw wr)) xt"
  shows "\<exists>s1. rbFixupLeft s x (Some p) w0 = rbFixupLeft_tail s1 (Some p) (rootp wl)
    \<and> zr s1 (InL (InL C w BLACK kw vw wr) p RED kp vp wl) xt \<and> same s s1"
proof -
  have "zr s (InR xt p cp kp vp C) (Nd wl w RED kw vw wr)"
    using z0 by (simp add: zr_InL zr_InR)
  from set_color_zr [OF this, of BLACK] obtain sa where
    a: "upd (\<lambda>n. n\<lparr>color := BLACK\<rparr>) s (Some w) = ok sa"
    "zr sa (InR xt p cp kp vp C) (Nd wl w BLACK kw vw wr)" "same s sa"
    by blast
  have "zr sa C (Nd xt p cp kp vp (Nd wl w BLACK kw vw wr))"
    using a(2) by (simp add: zr_InL zr_InR)
  from set_color_zr [OF this, of RED] obtain sb where
    b: "upd (\<lambda>n. n\<lparr>color := RED\<rparr>) sa (Some p) = ok sb"
    "zr sb C (Nd xt p RED kp vp (Nd wl w BLACK kw vw wr))" "same sa sb"
    by blast
  from leftRotate_zr [OF b(2)] obtain sc where
    c: "leftRotate sb (Some p) = ok sc"
    "zr sc C (Nd (Nd xt p RED kp vp wl) w BLACK kw vw wr)" "same sb sc"
    by blast
  have c': "zr sc (InL (InL C w BLACK kw vw wr) p RED kp vp wl) xt"
    using c(2) by (simp add: zr_InL zr_InR)
  have hp: "heap sc p = Some \<lparr>parent = Some w, left = rootp xt, right = rootp wl, color = RED,
      key = kp, val = vp\<rparr>"
    using c' by (simp add: zr_def zrep_def)
  have "rbFixupLeft s x (Some p) w0 = rbFixupLeft_tail sc (Some p) (rootp wl)"
    using z0
    by (simp add: rbFixupLeft_split zr_def zrep_def fld_Some a(1) b(1) c(1) hp)
  then show ?thesis
    using c' a(3) b(3) c(3) same_trans by blast
qed

lemma dfixR_head_red:
  assumes z0: "zr s (InR (Nd wl w RED kw vw wr) p cp kp vp C) xt"
  shows "\<exists>s1. rbFixupRight s x (Some p) w0 = rbFixupRight_tail s1 (Some p) (rootp wr)
    \<and> zr s1 (InR wr p RED kp vp (InR wl w BLACK kw vw C)) xt \<and> same s s1"
proof -
  have "zr s (InL C p cp kp vp xt) (Nd wl w RED kw vw wr)"
    using z0 by (simp add: zr_InL zr_InR)
  from set_color_zr [OF this, of BLACK] obtain sa where
    a: "upd (\<lambda>n. n\<lparr>color := BLACK\<rparr>) s (Some w) = ok sa"
    "zr sa (InL C p cp kp vp xt) (Nd wl w BLACK kw vw wr)" "same s sa"
    by blast
  have "zr sa C (Nd (Nd wl w BLACK kw vw wr) p cp kp vp xt)"
    using a(2) by (simp add: zr_InL zr_InR)
  from set_color_zr [OF this, of RED] obtain sb where
    b: "upd (\<lambda>n. n\<lparr>color := RED\<rparr>) sa (Some p) = ok sb"
    "zr sb C (Nd (Nd wl w BLACK kw vw wr) p RED kp vp xt)" "same sa sb"
    by blast
  from rightRotate_zr [OF b(2)] obtain sc where
    c: "rightRotate sb (Some p) = ok sc"
    "zr sc C (Nd wl w BLACK kw vw (Nd wr p RED kp vp xt))" "same sb sc"
    by blast
  have c': "zr sc (InR wr p RED kp vp (InR wl w BLACK kw vw C)) xt"
    using c(2) by (simp add: zr_InL zr_InR)
  have hp: "heap sc p = Some \<lparr>parent = Some w, left = rootp wr, right = rootp xt, color = RED,
      key = kp, val = vp\<rparr>"
    using c' by (simp add: zr_def zrep_def)
  have "rbFixupRight s x (Some p) w0 = rbFixupRight_tail sc (Some p) (rootp wr)"
    using z0
    by (simp add: rbFixupRight_split zr_def zrep_def fld_Some a(1) b(1) c(1) hp)
  then show ?thesis
    using c' a(3) b(3) c(3) same_trans by blast
qed

lemma zr_root:
  assumes "zr s C t"
  shows "root s = rootp (plug C t)"
proof -
  have "zr s Top (plug C t)"
    using assms zr_plug [of s C t] by simp
  then show ?thesis
    by (simp add: zr_def zrep_def)
qed

lemma rootp_plug_in:
  "C \<noteq> Top \<Longrightarrow> \<exists>a. rootp (plug C t) = Some a \<and> (a \<in> set (cbefa C) \<or> a \<in> set (cafta C))"
proof (induction C arbitrary: t)
  case Top
  then show ?case by simp
next
  case (InL C a c k v r)
  then show ?case by (cases "C = Top") auto
next
  case (InR l a c k v C)
  then show ?case by (cases "C = Top") auto
qed

lemma zr_focus_not_root:
  assumes "zr s C t" "C \<noteq> Top"
  shows "rootp t \<noteq> root s"
proof -
  from rootp_plug_in [OF assms(2), of t] obtain a where
    a: "rootp (plug C t) = Some a" "a \<in> set (cbefa C) \<or> a \<in> set (cafta C)"
    by blast
  have "distinct (cbefa C @ addrs t @ cafta C)"
    using assms(1) by (simp add: zr_def zrep_def)
  then have "a \<notin> set (addrs t)"
    using a(2) by auto
  then have "rootp t \<noteq> Some a"
    by simp
  then show ?thesis
    using zr_root [OF assms(1)] a(1) by simp
qed

lemma dloop_exit_root:
  "rbDeleteFixup_loop s (root s) par w = ok (s, root s)"
  by (subst rbDeleteFixup_loop.simps) simp

lemma dloop_exit_red:
  assumes "zr s C xt" "\<not> col xt"
  shows "rbDeleteFixup_loop s (rootp xt) par w = ok (s, rootp xt)"
proof -
  have "repr (heap s) (cpar C) xt"
    using assms(1) by (simp add: zr_def zrep_def)
  from getColor_rootp [OF this] show ?thesis
    using assms(2) by (subst rbDeleteFixup_loop.simps) simp
qed

lemma dloop_step_L:
  assumes "zr s (InL C p cp kp vp S) xt" "col xt" "xt = Lf \<longrightarrow> par = Some p"
  shows "rbDeleteFixup_loop s (rootp xt) par w =
    bindR (rbFixupLeft s (rootp xt) (Some p) w) (\<lambda>(t, x, w). rbDeleteFixup_loop t x (Some p) w)"
proof -
  have nr: "rootp xt \<noteq> root s"
    using assms(1) by (rule zr_focus_not_root) simp
  have r: "repr (heap s) (Some p) xt"
    using assms(1) by (simp add: zr_def zrep_def)
  have hp: "heap s p = Some \<lparr>parent = cpar C, left = rootp xt, right = rootp S, color = cp,
      key = kp, val = vp\<rparr>"
    using assms(1) by (simp add: zr_def zrep_def)
  have px: "(if rootp xt \<noteq> None then fld parent (heap s) (rootp xt) else ok par) = ok (Some p)"
    using r assms(3) by (cases xt) (auto simp: fld_Some)
  show ?thesis
    using nr getColor_rootp [OF r] assms(2) hp px
    by (subst rbDeleteFixup_loop.simps) (simp add: fld_Some)
qed

lemma dloop_step_R:
  assumes "zr s (InR S p cp kp vp C) xt" "col xt" "xt = Lf \<longrightarrow> par = Some p" "S \<noteq> Lf"
  shows "rbDeleteFixup_loop s (rootp xt) par w =
    bindR (rbFixupRight s (rootp xt) (Some p) w) (\<lambda>(t, x, w). rbDeleteFixup_loop t x (Some p) w)"
proof -
  have nr: "rootp xt \<noteq> root s"
    using assms(1) by (rule zr_focus_not_root) simp
  have r: "repr (heap s) (Some p) xt"
    using assms(1) by (simp add: zr_def zrep_def)
  have hp: "heap s p = Some \<lparr>parent = cpar C, left = rootp S, right = rootp xt, color = cp,
      key = kp, val = vp\<rparr>"
    using assms(1) by (simp add: zr_def zrep_def)
  have px: "(if rootp xt \<noteq> None then fld parent (heap s) (rootp xt) else ok par) = ok (Some p)"
    using r assms(3) by (cases xt) (auto simp: fld_Some)
  have ne: "rootp xt \<noteq> rootp S"
    using assms(1,4) by (cases S; cases xt) (auto simp: zr_def zrep_def)
  show ?thesis
    using nr getColor_rootp [OF r] assms(2) hp px ne
    by (subst rbDeleteFixup_loop.simps) (simp add: fld_Some)
qed


lemma col_paint_BLACK [simp]: "col (paint BLACK t)"
  by (cases t) auto

lemma bh_paint_red: "\<not> col T \<Longrightarrow> bh (paint BLACK T) = Suc (bh T)"
  by (cases T) auto

lemma paint_black_id: "col T \<Longrightarrow> paint BLACK T = T"
  by (cases T) auto

lemma rbt_top_paint:
  assumes "invc (paint BLACK T)" "invh T"
  shows "rbt (paint BLACK T)"
  using assms by (simp add: rbt_def)

lemma rbt_plug_paint:
  assumes "invc (paint BLACK T)" "invh T" "\<not> col T" "cinvh C (Suc (bh T))" "cinvc C" "crootb C"
  shows "rbt (plug C (paint BLACK T))"
proof (cases "C = Top")
  case True
  then show ?thesis using assms by (simp add: rbt_def)
next
  case False
  then show ?thesis using assms
    by (simp add: rbt_def invh_plug invc_plug col_plug bh_paint_red)
qed

lemma rbt_plug_whole:
  assumes "invc T" "invh T" "cinvh C (bh T)" "cinvc C" "crootb C" "col T \<or> ccol C"
  shows "rbt (paint BLACK (plug C T))"
proof (cases "C = Top")
  case True
  then show ?thesis using assms by (simp add: rbt_def invc_paint)
next
  case False
  then show ?thesis using assms
    by (auto simp: rbt_def invh_plug invc_plug paint_plug col_plug)
qed

lemma dfixL_black:
  assumes z0: "zr s (InL C p cp kp vp (Nd sl w BLACK kw vw sr)) xt"
    and ix: "invc xt" "invh xt" and ic: "invc sl" "invc sr" and ih: "invh sl" "invh sr"
    and b: "bh sl = bh xt" "bh sr = bh xt"
  shows "\<exists>s' x' w' T. rbFixupLeft_tail s (Some p) (Some w) = ok (s', x', w') \<and> same s s'
      \<and> zr s' C T \<and> nodes T = nodes (Nd xt p cp kp vp (Nd sl w BLACK kw vw sr))
      \<and> invh T \<and> T \<noteq> Lf \<and> col T = cp
      \<and> ((x' = Some p \<and> rootp T = Some p \<and> invc (paint BLACK T)
            \<and> bh T = bh xt + (if cp then 1 else 0))
        \<or> (x' = root s' \<and> invc T \<and> bh T = Suc (bh xt) + (if cp then 1 else 0)))"
proof (cases "col sl \<and> col sr")
  case True
  from dfixL_case2 [OF z0] True obtain s' where
    r: "rbFixupLeft_tail s (Some p) (Some w) = ok (s', Some p, Some w)"
    "zr s' C (Nd xt p cp kp vp (Nd sl w RED kw vw sr))" "same s s'"
    by blast
  show ?thesis
    apply (rule exI [of _ s'], rule exI [of _ "Some p"], rule exI [of _ "Some w"])
    apply (rule exI [of _ "Nd xt p cp kp vp (Nd sl w RED kw vw sr)"])
    using r True ix ic ih b apply simp
    done
next
  case False
  show ?thesis
  proof (cases "col sr")
    case True
    with False have "\<not> col sl" by simp
    then obtain a n kn vn b' where sl: "sl = Nd a n RED kn vn b'"
      using col_red_cases by blast
    from dfixL_tail_case3 [OF z0 [unfolded sl] True] obtain s1 where
      r1: "rbFixupLeft_tail s (Some p) (Some w) = rbFixupLeft_case4 s1 (Some p) (Some n)"
      "zr s1 (InL C p cp kp vp (Nd a n BLACK kn vn (Nd b' w RED kw vw sr))) xt" "same s s1"
      unfolding sl by blast
    from dfixL_case4_core [OF r1(2)] obtain s' where
      r2: "rbFixupLeft_case4 s1 (Some p) (Some n) = ok (s', root s', Some n)"
      "zr s' C (Nd (Nd xt p BLACK kp vp a) n cp kn vn (Nd b' w BLACK kw vw sr))" "same s1 s'"
      by blast
    have sm: "same s s'" using r1(3) r2(3) by (rule same_trans)
    show ?thesis
      apply (rule exI [of _ s'], rule exI [of _ "root s'"], rule exI [of _ "Some n"])
      apply (rule exI [of _ "Nd (Nd xt p BLACK kp vp a) n cp kn vn (Nd b' w BLACK kw vw sr)"])
      using r1(1) r2(1,2) sm True ix ic ih b sl apply simp
      done
  next
    case False
    then obtain a f kf vf b' where sr: "sr = Nd a f RED kf vf b'"
      using col_red_cases by blast
    from dfixL_case4_core [OF z0 [unfolded sr]] obtain s' where
      r2: "rbFixupLeft_case4 s (Some p) (Some w) = ok (s', root s', Some w)"
      "zr s' C (Nd (Nd xt p BLACK kp vp sl) w cp kw vw (Nd a f BLACK kf vf b'))" "same s s'"
      by blast
    show ?thesis
      apply (rule exI [of _ s'], rule exI [of _ "root s'"], rule exI [of _ "Some w"])
      apply (rule exI [of _ "Nd (Nd xt p BLACK kp vp sl) w cp kw vw (Nd a f BLACK kf vf b')"])
      using dfixL_tail_case4 [OF z0 [unfolded sr]] r2 ix ic ih b sr apply simp
      done
  qed
qed

lemma dfixR_black:
  assumes z0: "zr s (InR (Nd sl w BLACK kw vw sr) p cp kp vp C) xt"
    and ix: "invc xt" "invh xt" and ic: "invc sl" "invc sr" and ih: "invh sl" "invh sr"
    and b: "bh sl = bh xt" "bh sr = bh xt"
  shows "\<exists>s' x' w' T. rbFixupRight_tail s (Some p) (Some w) = ok (s', x', w') \<and> same s s'
      \<and> zr s' C T \<and> nodes T = nodes (Nd (Nd sl w BLACK kw vw sr) p cp kp vp xt)
      \<and> invh T \<and> T \<noteq> Lf \<and> col T = cp
      \<and> ((x' = Some p \<and> rootp T = Some p \<and> invc (paint BLACK T)
            \<and> bh T = bh xt + (if cp then 1 else 0))
        \<or> (x' = root s' \<and> invc T \<and> bh T = Suc (bh xt) + (if cp then 1 else 0)))"
proof (cases "col sl \<and> col sr")
  case True
  from dfixR_case2 [OF z0] True obtain s' where
    r: "rbFixupRight_tail s (Some p) (Some w) = ok (s', Some p, Some w)"
    "zr s' C (Nd (Nd sl w RED kw vw sr) p cp kp vp xt)" "same s s'"
    by blast
  show ?thesis
    apply (rule exI [of _ s'], rule exI [of _ "Some p"], rule exI [of _ "Some w"])
    apply (rule exI [of _ "Nd (Nd sl w RED kw vw sr) p cp kp vp xt"])
    using r True ix ic ih b apply simp
    done
next
  case False
  show ?thesis
  proof (cases "col sl")
    case True
    with False have "\<not> col sr" by simp
    then obtain a n kn vn b' where sr: "sr = Nd a n RED kn vn b'"
      using col_red_cases by blast
    from dfixR_tail_case3 [OF z0 [unfolded sr] True] obtain s1 where
      r1: "rbFixupRight_tail s (Some p) (Some w) = rbFixupRight_case4 s1 (Some p) (Some n)"
      "zr s1 (InR (Nd (Nd sl w RED kw vw a) n BLACK kn vn b') p cp kp vp C) xt" "same s s1"
      unfolding sr by blast
    from dfixR_case4_core [OF r1(2)] obtain s' where
      r2: "rbFixupRight_case4 s1 (Some p) (Some n) = ok (s', root s', Some n)"
      "zr s' C (Nd (Nd sl w BLACK kw vw a) n cp kn vn (Nd b' p BLACK kp vp xt))" "same s1 s'"
      by blast
    have sm: "same s s'" using r1(3) r2(3) by (rule same_trans)
    show ?thesis
      apply (rule exI [of _ s'], rule exI [of _ "root s'"], rule exI [of _ "Some n"])
      apply (rule exI [of _ "Nd (Nd sl w BLACK kw vw a) n cp kn vn (Nd b' p BLACK kp vp xt)"])
      using r1(1) r2(1,2) sm True ix ic ih b sr apply simp
      done
  next
    case False
    then obtain a f kf vf b' where sl: "sl = Nd a f RED kf vf b'"
      using col_red_cases by blast
    from dfixR_case4_core [OF z0 [unfolded sl]] obtain s' where
      r2: "rbFixupRight_case4 s (Some p) (Some w) = ok (s', root s', Some w)"
      "zr s' C (Nd (Nd a f BLACK kf vf b') w cp kw vw (Nd sr p BLACK kp vp xt))" "same s s'"
      by blast
    show ?thesis
      apply (rule exI [of _ s'], rule exI [of _ "root s'"], rule exI [of _ "Some w"])
      apply (rule exI [of _ "Nd (Nd a f BLACK kf vf b') w cp kw vw (Nd sr p BLACK kp vp xt)"])
      using dfixR_tail_case4 [OF z0 [unfolded sl]] r2 ix ic ih b sl apply simp
      done
  qed
qed


lemma dfixL_full:
  assumes z0: "zr s (InL C p cp kp vp S) xt"
    and ix: "invc xt" "invh xt"
    and iS: "invc S" "invh S" "bh S = Suc (bh xt)" "\<not> cp \<longrightarrow> col S \<and> ccol C"
    and iC: "cinvh C (Suc (bh xt) + (if cp then 1 else 0))" "cinvc C" "crootb C"
  shows "\<exists>s' x' w'. rbFixupLeft s x (Some p) w0 = ok (s', x', w') \<and> same s s'
      \<and> ((x' = Some p \<and> (\<exists>T. zr s' C T \<and> rootp T = Some p \<and> invc (paint BLACK T) \<and> invh T
              \<and> cinvh C (Suc (bh T))
              \<and> nodes (plug C T) = nodes (plug C (Nd xt p cp kp vp S))))
        \<or> (\<exists>C' T'. (\<forall>par w. rbDeleteFixup_loop s' x' par w = ok (s', rootp T'))
              \<and> zr s' C' T' \<and> rbt (plug C' (paint BLACK T'))
              \<and> nodes (plug C' T') = nodes (plug C (Nd xt p cp kp vp S))))"
proof -
  obtain sl w cw kw vw sr where S: "S = Nd sl w cw kw vw sr"
    using iS(3) by (cases S) auto
  have whole: "\<exists>C' T'. (\<forall>par w. rbDeleteFixup_loop s' (root s') par w = ok (s', rootp T'))
      \<and> zr s' C' T' \<and> rbt (plug C' (paint BLACK T'))
      \<and> nodes (plug C' T') = nodes (plug C (Nd xt p cp kp vp S))"
    if "zr s' C0 T" "invc T" "invh T" "cinvh C0 (bh T)" "cinvc C0" "crootb C0"
      "col T \<or> ccol C0" "nodes (plug C0 T) = nodes (plug C (Nd xt p cp kp vp S))"
    for s' C0 T
  proof -
    have 1: "zr s' Top (plug C0 T)"
      using that(1) zr_plug [of s' C0 T] by simp
    have 2: "root s' = rootp (plug C0 T)"
      using zr_root [OF that(1)] .
    have 3: "rbt (paint BLACK (plug C0 T))"
      by (rule rbt_plug_whole) (use that in auto)
    show ?thesis
      apply (rule exI [of _ Top], rule exI [of _ "plug C0 T"])
      using 1 2 3 that(8) dloop_exit_root [of s'] apply simp
      done
  qed
  show ?thesis
  proof (cases cw)
    case True
    have z1: "zr s (InL C p cp kp vp (Nd sl w BLACK kw vw sr)) xt"
      using z0 S True by simp
    have hd: "rbFixupLeft s x (Some p) w0 = rbFixupLeft_tail s (Some p) (Some w)"
      using z1 by (rule dfixL_head_black)
    have "\<exists>s' x' w' T. rbFixupLeft_tail s (Some p) (Some w) = ok (s', x', w') \<and> same s s'
      \<and> zr s' C T \<and> nodes T = nodes (Nd xt p cp kp vp (Nd sl w BLACK kw vw sr))
      \<and> invh T \<and> T \<noteq> Lf \<and> col T = cp
      \<and> ((x' = Some p \<and> rootp T = Some p \<and> invc (paint BLACK T)
            \<and> bh T = bh xt + (if cp then 1 else 0))
        \<or> (x' = root s' \<and> invc T \<and> bh T = Suc (bh xt) + (if cp then 1 else 0)))"
      by (rule dfixL_black [OF z1 ix]) (use iS S True in auto)
    then obtain s' x' w' T where
      r: "rbFixupLeft_tail s (Some p) (Some w) = ok (s', x', w')" "same s s'" "zr s' C T"
      "nodes T = nodes (Nd xt p cp kp vp (Nd sl w BLACK kw vw sr))" "invh T" "T \<noteq> Lf"
      "col T = cp"
      and d: "(x' = Some p \<and> rootp T = Some p \<and> invc (paint BLACK T)
            \<and> bh T = bh xt + (if cp then 1 else 0))
        \<or> (x' = root s' \<and> invc T \<and> bh T = Suc (bh xt) + (if cp then 1 else 0))"
      by blast
    have nn: "nodes (plug C T) = nodes (plug C (Nd xt p cp kp vp S))"
      using r(4) S True by (simp add: inord_plug)
    from d show ?thesis
    proof
      assume a: "x' = Some p \<and> rootp T = Some p \<and> invc (paint BLACK T)
            \<and> bh T = bh xt + (if cp then 1 else 0)"
      then have "cinvh C (Suc (bh T))"
        using iC(1) by simp
      note fin = this
      show ?thesis
        apply (rule exI [of _ s'], rule exI [of _ x'], rule exI [of _ w'])
        using fin hd r a nn apply auto
        done
    next
      assume a: "x' = root s' \<and> invc T \<and> bh T = Suc (bh xt) + (if cp then 1 else 0)"
      have "\<exists>C' T'. (\<forall>par w. rbDeleteFixup_loop s' (root s') par w = ok (s', rootp T'))
        \<and> zr s' C' T' \<and> rbt (plug C' (paint BLACK T'))
        \<and> nodes (plug C' T') = nodes (plug C (Nd xt p cp kp vp S))"
        by (rule whole [OF r(3)]) (use a r iC iS nn in auto)
      note fin = this
      show ?thesis
        apply (rule exI [of _ s'], rule exI [of _ x'], rule exI [of _ w'])
        using fin hd r a apply simp
        done
    qed
  next
    case False
    have cp: "cp" and csl: "col sl" and csr: "col sr"
      using iS(1,4) S False by auto
    have bsl: "bh sl = Suc (bh xt)" "bh sr = Suc (bh xt)"
      using iS(2,3) S False by auto
    then obtain a n cn kn vn b' where sl: "sl = Nd a n cn kn vn b'"
      by (cases sl) auto
    have cn: "cn" using csl sl by simp
    have z1: "zr s (InL C p cp kp vp (Nd sl w RED kw vw sr)) xt"
      using z0 S False by simp
    from dfixL_head_red [OF z1, of x w0] obtain s1 where
      h: "rbFixupLeft s x (Some p) w0 = rbFixupLeft_tail s1 (Some p) (Some n)"
      "zr s1 (InL (InL C w BLACK kw vw sr) p RED kp vp (Nd a n BLACK kn vn b')) xt" "same s s1"
      using sl cn by auto
    let ?C1 = "InL C w BLACK kw vw sr"
    have "\<exists>s' x' w' T. rbFixupLeft_tail s1 (Some p) (Some n) = ok (s', x', w') \<and> same s1 s'
      \<and> zr s' ?C1 T \<and> nodes T = nodes (Nd xt p RED kp vp (Nd a n BLACK kn vn b'))
      \<and> invh T \<and> T \<noteq> Lf \<and> col T = RED
      \<and> ((x' = Some p \<and> rootp T = Some p \<and> invc (paint BLACK T)
            \<and> bh T = bh xt + (if RED then 1 else 0))
        \<or> (x' = root s' \<and> invc T \<and> bh T = Suc (bh xt) + (if RED then 1 else 0)))"
      by (rule dfixL_black [OF h(2) ix]) (use iS S False sl cn bsl in auto)
    then obtain s' x' w' T where
      r: "rbFixupLeft_tail s1 (Some p) (Some n) = ok (s', x', w')" "same s1 s'" "zr s' ?C1 T"
      "nodes T = nodes (Nd xt p RED kp vp (Nd a n BLACK kn vn b'))" "invh T" "T \<noteq> Lf"
      "\<not> col T"
      and d: "(x' = Some p \<and> rootp T = Some p \<and> invc (paint BLACK T) \<and> bh T = bh xt)
        \<or> (x' = root s' \<and> invc T \<and> bh T = Suc (bh xt))"
      by auto
    have sm: "same s s'" using h(3) r(2) by (rule same_trans)
    have nn: "nodes (plug ?C1 T) = nodes (plug C (Nd xt p cp kp vp S))"
      using r(4) S sl by (simp add: inord_plug)
    have c1: "cinvc ?C1" "crootb ?C1"
      using iC iS(1) S by (auto split: if_splits)
    have c1h: "cinvh ?C1 (Suc (bh xt))"
      using iC(1) iS(2) S cp bsl by simp
    from d show ?thesis
    proof
      assume a: "x' = Some p \<and> rootp T = Some p \<and> invc (paint BLACK T) \<and> bh T = bh xt"
      have e: "\<forall>par w. rbDeleteFixup_loop s' x' par w = ok (s', rootp T)"
        using dloop_exit_red [OF r(3) r(7)] a by simp
      have "rbt (plug ?C1 (paint BLACK T))"
        by (rule rbt_plug_paint) (use a r c1 c1h in auto)
      note fin = this
      show ?thesis
        apply (rule exI [of _ s'], rule exI [of _ x'], rule exI [of _ w'])
        apply (rule conjI)
        using h r apply simp
        apply (rule conjI [OF sm])
        apply (rule disjI2)
        apply (rule exI [of _ ?C1], rule exI [of _ T])
        using fin e r(3) nn apply simp
        done
    next
      assume a: "x' = root s' \<and> invc T \<and> bh T = Suc (bh xt)"
      have "\<exists>C' T'. (\<forall>par w. rbDeleteFixup_loop s' (root s') par w = ok (s', rootp T'))
        \<and> zr s' C' T' \<and> rbt (plug C' (paint BLACK T'))
        \<and> nodes (plug C' T') = nodes (plug C (Nd xt p cp kp vp S))"
        by (rule whole [OF r(3)]) (use a r c1 c1h nn in auto)
      note fin = this
      show ?thesis
        apply (rule exI [of _ s'], rule exI [of _ x'], rule exI [of _ w'])
        using fin h r a sm apply simp
        done
    qed
  qed
qed


lemma dfixR_full:
  assumes z0: "zr s (InR S p cp kp vp C) xt"
    and ix: "invc xt" "invh xt"
    and iS: "invc S" "invh S" "bh S = Suc (bh xt)" "\<not> cp \<longrightarrow> col S \<and> ccol C"
    and iC: "cinvh C (Suc (bh xt) + (if cp then 1 else 0))" "cinvc C" "crootb C"
  shows "\<exists>s' x' w'. rbFixupRight s x (Some p) w0 = ok (s', x', w') \<and> same s s'
      \<and> ((x' = Some p \<and> (\<exists>T. zr s' C T \<and> rootp T = Some p \<and> invc (paint BLACK T) \<and> invh T
              \<and> cinvh C (Suc (bh T))
              \<and> nodes (plug C T) = nodes (plug C (Nd S p cp kp vp xt))))
        \<or> (\<exists>C' T'. (\<forall>par w. rbDeleteFixup_loop s' x' par w = ok (s', rootp T'))
              \<and> zr s' C' T' \<and> rbt (plug C' (paint BLACK T'))
              \<and> nodes (plug C' T') = nodes (plug C (Nd S p cp kp vp xt))))"
proof -
  obtain sl w cw kw vw sr where S: "S = Nd sl w cw kw vw sr"
    using iS(3) by (cases S) auto
  have whole: "\<exists>C' T'. (\<forall>par w. rbDeleteFixup_loop s' (root s') par w = ok (s', rootp T'))
      \<and> zr s' C' T' \<and> rbt (plug C' (paint BLACK T'))
      \<and> nodes (plug C' T') = nodes (plug C (Nd S p cp kp vp xt))"
    if "zr s' C0 T" "invc T" "invh T" "cinvh C0 (bh T)" "cinvc C0" "crootb C0"
      "col T \<or> ccol C0" "nodes (plug C0 T) = nodes (plug C (Nd S p cp kp vp xt))"
    for s' C0 T
  proof -
    have 1: "zr s' Top (plug C0 T)"
      using that(1) zr_plug [of s' C0 T] by simp
    have 2: "root s' = rootp (plug C0 T)"
      using zr_root [OF that(1)] .
    have 3: "rbt (paint BLACK (plug C0 T))"
      by (rule rbt_plug_whole) (use that in auto)
    show ?thesis
      apply (rule exI [of _ Top], rule exI [of _ "plug C0 T"])
      using 1 2 3 that(8) dloop_exit_root [of s'] apply simp
      done
  qed
  show ?thesis
  proof (cases cw)
    case True
    have z1: "zr s (InR (Nd sl w BLACK kw vw sr) p cp kp vp C) xt"
      using z0 S True by simp
    have hd: "rbFixupRight s x (Some p) w0 = rbFixupRight_tail s (Some p) (Some w)"
      using z1 by (rule dfixR_head_black)
    have "\<exists>s' x' w' T. rbFixupRight_tail s (Some p) (Some w) = ok (s', x', w') \<and> same s s'
      \<and> zr s' C T \<and> nodes T = nodes (Nd (Nd sl w BLACK kw vw sr) p cp kp vp xt)
      \<and> invh T \<and> T \<noteq> Lf \<and> col T = cp
      \<and> ((x' = Some p \<and> rootp T = Some p \<and> invc (paint BLACK T)
            \<and> bh T = bh xt + (if cp then 1 else 0))
        \<or> (x' = root s' \<and> invc T \<and> bh T = Suc (bh xt) + (if cp then 1 else 0)))"
      by (rule dfixR_black [OF z1 ix]) (use iS S True in auto)
    then obtain s' x' w' T where
      r: "rbFixupRight_tail s (Some p) (Some w) = ok (s', x', w')" "same s s'" "zr s' C T"
      "nodes T = nodes (Nd (Nd sl w BLACK kw vw sr) p cp kp vp xt)" "invh T" "T \<noteq> Lf"
      "col T = cp"
      and d: "(x' = Some p \<and> rootp T = Some p \<and> invc (paint BLACK T)
            \<and> bh T = bh xt + (if cp then 1 else 0))
        \<or> (x' = root s' \<and> invc T \<and> bh T = Suc (bh xt) + (if cp then 1 else 0))"
      by blast
    have nn: "nodes (plug C T) = nodes (plug C (Nd S p cp kp vp xt))"
      using r(4) S True by (simp add: inord_plug)
    from d show ?thesis
    proof
      assume a: "x' = Some p \<and> rootp T = Some p \<and> invc (paint BLACK T)
            \<and> bh T = bh xt + (if cp then 1 else 0)"
      then have "cinvh C (Suc (bh T))"
        using iC(1) by simp
      note fin = this
      show ?thesis
        apply (rule exI [of _ s'], rule exI [of _ x'], rule exI [of _ w'])
        using fin hd r a nn apply auto
        done
    next
      assume a: "x' = root s' \<and> invc T \<and> bh T = Suc (bh xt) + (if cp then 1 else 0)"
      have "\<exists>C' T'. (\<forall>par w. rbDeleteFixup_loop s' (root s') par w = ok (s', rootp T'))
        \<and> zr s' C' T' \<and> rbt (plug C' (paint BLACK T'))
        \<and> nodes (plug C' T') = nodes (plug C (Nd S p cp kp vp xt))"
        by (rule whole [OF r(3)]) (use a r iC iS nn in auto)
      note fin = this
      show ?thesis
        apply (rule exI [of _ s'], rule exI [of _ x'], rule exI [of _ w'])
        using fin hd r a apply simp
        done
    qed
  next
    case False
    have cp: "cp" and csl: "col sl" and csr: "col sr"
      using iS(1,4) S False by auto
    have bsl: "bh sl = Suc (bh xt)" "bh sr = Suc (bh xt)"
      using iS(2,3) S False by auto
    then obtain a n cn kn vn b' where sr: "sr = Nd a n cn kn vn b'"
      by (cases sr) auto
    have cn: "cn" using csr sr by simp
    have z1: "zr s (InR (Nd sl w RED kw vw sr) p cp kp vp C) xt"
      using z0 S False by simp
    from dfixR_head_red [OF z1, of x w0] obtain s1 where
      h: "rbFixupRight s x (Some p) w0 = rbFixupRight_tail s1 (Some p) (Some n)"
      "zr s1 (InR (Nd a n BLACK kn vn b') p RED kp vp (InR sl w BLACK kw vw C)) xt" "same s s1"
      using sr cn by auto
    let ?C1 = "InR sl w BLACK kw vw C"
    have "\<exists>s' x' w' T. rbFixupRight_tail s1 (Some p) (Some n) = ok (s', x', w') \<and> same s1 s'
      \<and> zr s' ?C1 T \<and> nodes T = nodes (Nd (Nd a n BLACK kn vn b') p RED kp vp xt)
      \<and> invh T \<and> T \<noteq> Lf \<and> col T = RED
      \<and> ((x' = Some p \<and> rootp T = Some p \<and> invc (paint BLACK T)
            \<and> bh T = bh xt + (if RED then 1 else 0))
        \<or> (x' = root s' \<and> invc T \<and> bh T = Suc (bh xt) + (if RED then 1 else 0)))"
      by (rule dfixR_black [OF h(2) ix]) (use iS S False sr cn bsl in auto)
    then obtain s' x' w' T where
      r: "rbFixupRight_tail s1 (Some p) (Some n) = ok (s', x', w')" "same s1 s'" "zr s' ?C1 T"
      "nodes T = nodes (Nd (Nd a n BLACK kn vn b') p RED kp vp xt)" "invh T" "T \<noteq> Lf"
      "\<not> col T"
      and d: "(x' = Some p \<and> rootp T = Some p \<and> invc (paint BLACK T) \<and> bh T = bh xt)
        \<or> (x' = root s' \<and> invc T \<and> bh T = Suc (bh xt))"
      by auto
    have sm: "same s s'" using h(3) r(2) by (rule same_trans)
    have nn: "nodes (plug ?C1 T) = nodes (plug C (Nd S p cp kp vp xt))"
      using r(4) S sr by (simp add: inord_plug)
    have c1: "cinvc ?C1" "crootb ?C1"
      using iC iS(1) S by (auto split: if_splits)
    have c1h: "cinvh ?C1 (Suc (bh xt))"
      using iC(1) iS(2) S cp bsl by simp
    from d show ?thesis
    proof
      assume a: "x' = Some p \<and> rootp T = Some p \<and> invc (paint BLACK T) \<and> bh T = bh xt"
      have e: "\<forall>par w. rbDeleteFixup_loop s' x' par w = ok (s', rootp T)"
        using dloop_exit_red [OF r(3) r(7)] a by simp
      have "rbt (plug ?C1 (paint BLACK T))"
        by (rule rbt_plug_paint) (use a r c1 c1h in auto)
      note fin = this
      show ?thesis
        apply (rule exI [of _ s'], rule exI [of _ x'], rule exI [of _ w'])
        apply (rule conjI)
        using h r apply simp
        apply (rule conjI [OF sm])
        apply (rule disjI2)
        apply (rule exI [of _ ?C1], rule exI [of _ T])
        using fin e r(3) nn apply simp
        done
    next
      assume a: "x' = root s' \<and> invc T \<and> bh T = Suc (bh xt)"
      have "\<exists>C' T'. (\<forall>par w. rbDeleteFixup_loop s' (root s') par w = ok (s', rootp T'))
        \<and> zr s' C' T' \<and> rbt (plug C' (paint BLACK T'))
        \<and> nodes (plug C' T') = nodes (plug C (Nd S p cp kp vp xt))"
        by (rule whole [OF r(3)]) (use a r c1 c1h nn in auto)
      note fin = this
      show ?thesis
        apply (rule exI [of _ s'], rule exI [of _ x'], rule exI [of _ w'])
        using fin h r a sm apply simp
        done
    qed
  qed
qed


lemma dfix_loop:
  assumes "zr s C xt" "xt = Lf \<longrightarrow> par = cpar C" "invc (paint BLACK xt)" "invh xt"
    "cinvh C (Suc (bh xt))" "cinvc C" "crootb C"
  shows "\<exists>s' C' T'. rbDeleteFixup_loop s (rootp xt) par w = ok (s', rootp T') \<and> zr s' C' T'
    \<and> rbt (plug C' (paint BLACK T')) \<and> nodes (plug C' T') = nodes (plug C xt) \<and> same s s'"
  using assms
proof (induction "csize C" arbitrary: C s xt par w rule: less_induct)
  case less
  note z0 = less.prems(1) and ip = less.prems(3) and ih = less.prems(4)
    and ch = less.prems(5) and cc = less.prems(6) and cr = less.prems(7)
  show ?case
  proof (cases "col xt")
    case False
    have e: "rbDeleteFixup_loop s (rootp xt) par w = ok (s, rootp xt)"
      using z0 False by (rule dloop_exit_red)
    have "rbt (plug C (paint BLACK xt))"
      by (rule rbt_plug_paint) (use ip ih False ch cc cr in auto)
    then show ?thesis
      using e z0 by (intro exI [of _ s] exI [of _ C] exI [of _ xt]) simp
  next
    case True
    then have ix: "invc xt"
      using ip by (simp add: paint_black_id)
    show ?thesis
    proof (cases C)
      case Top
      have "root s = rootp xt"
        using zr_root [OF z0] Top by simp
      then have e: "rbDeleteFixup_loop s (rootp xt) par w = ok (s, rootp xt)"
        using dloop_exit_root [of s par w] by simp
      have "rbt (paint BLACK xt)"
        using ip ih by (rule rbt_top_paint)
      then show ?thesis
        using e z0 Top by (intro exI [of _ s] exI [of _ Top] exI [of _ xt]) simp
    next
      case (InL C1 p cp kp vp S)
      note CC = this
      have z1: "zr s (InL C1 p cp kp vp S) xt"
        using z0 CC by simp
      have iS: "invc S" "invh S" "bh S = Suc (bh xt)" "\<not> cp \<longrightarrow> col S \<and> ccol C1"
        and iC: "cinvh C1 (Suc (bh xt) + (if cp then 1 else 0))" "cinvc C1" "crootb C1"
        using ch cc crootb_up cr CC by auto
      have sne: "S \<noteq> Lf"
        using iS(3) by auto
      have pp: "xt = Lf \<longrightarrow> par = Some p"
        using less.prems(2) CC by simp
      have st: "rbDeleteFixup_loop s (rootp xt) par w =
        bindR (rbFixupLeft s (rootp xt) (Some p) w)
          (\<lambda>(t, x, w). rbDeleteFixup_loop t x (Some p) w)"
        by (rule dloop_step_L [OF z1 True pp])
      from dfixL_full [OF z1 ix ih iS iC, of "rootp xt" w] obtain s' x' w' where
        r: "rbFixupLeft s (rootp xt) (Some p) w = ok (s', x', w')" "same s s'"
        and d: "(x' = Some p \<and> (\<exists>T. zr s' C1 T \<and> rootp T = Some p \<and> invc (paint BLACK T)
              \<and> invh T \<and> cinvh C1 (Suc (bh T))
              \<and> nodes (plug C1 T) = nodes (plug C1 (Nd xt p cp kp vp S))))
          \<or> (\<exists>C' T'. (\<forall>par w. rbDeleteFixup_loop s' x' par w = ok (s', rootp T'))
              \<and> zr s' C' T' \<and> rbt (plug C' (paint BLACK T'))
              \<and> nodes (plug C' T') = nodes (plug C1 (Nd xt p cp kp vp S)))"
        by blast
      have st': "rbDeleteFixup_loop s (rootp xt) par w = rbDeleteFixup_loop s' x' (Some p) w'"
        using st r(1) by simp
      have np: "nodes (plug C1 (Nd xt p cp kp vp S)) = nodes (plug C xt)"
        using CC by (simp add: inord_plug)
      from d show ?thesis
      proof
        assume "x' = Some p \<and> (\<exists>T. zr s' C1 T \<and> rootp T = Some p \<and> invc (paint BLACK T)
              \<and> invh T \<and> cinvh C1 (Suc (bh T))
              \<and> nodes (plug C1 T) = nodes (plug C1 (Nd xt p cp kp vp S)))"
        then obtain T where x': "x' = Some p" and
          T: "zr s' C1 T" "rootp T = Some p" "invc (paint BLACK T)" "invh T"
          "cinvh C1 (Suc (bh T))" "nodes (plug C1 T) = nodes (plug C1 (Nd xt p cp kp vp S))"
          by blast
        have lt: "csize C1 < csize C" using CC by simp
        have tl: "T = Lf \<longrightarrow> Some p = cpar C1" using T(2) by auto
        have "\<exists>s'' C' T'. rbDeleteFixup_loop s' (rootp T) (Some p) w' = ok (s'', rootp T')
          \<and> zr s'' C' T' \<and> rbt (plug C' (paint BLACK T'))
          \<and> nodes (plug C' T') = nodes (plug C1 T) \<and> same s' s''"
          by (rule less.hyps [OF lt T(1) tl T(3,4,5) iC(2,3)])
        then obtain s'' C' T' where
          f: "rbDeleteFixup_loop s' (Some p) (Some p) w' = ok (s'', rootp T')" "zr s'' C' T'"
          "rbt (plug C' (paint BLACK T'))" "nodes (plug C' T') = nodes (plug C1 T)" "same s' s''"
          unfolding T(2) by blast
        show ?thesis
          apply (rule exI [of _ s''], rule exI [of _ C'], rule exI [of _ T'])
          using st' x' f T(6) np same_trans [OF r(2) f(5)] apply simp
          done
      next
        assume "\<exists>C' T'. (\<forall>par w. rbDeleteFixup_loop s' x' par w = ok (s', rootp T'))
              \<and> zr s' C' T' \<and> rbt (plug C' (paint BLACK T'))
              \<and> nodes (plug C' T') = nodes (plug C1 (Nd xt p cp kp vp S))"
        then obtain C' T' where
          f: "\<forall>par w. rbDeleteFixup_loop s' x' par w = ok (s', rootp T')"
          "zr s' C' T'" "rbt (plug C' (paint BLACK T'))"
          "nodes (plug C' T') = nodes (plug C1 (Nd xt p cp kp vp S))"
          by blast
        show ?thesis
          apply (rule exI [of _ s'], rule exI [of _ C'], rule exI [of _ T'])
          using st' f np r(2) apply simp
          done
      qed
    next
      case (InR S p cp kp vp C1)
      note CC = this
      have z1: "zr s (InR S p cp kp vp C1) xt"
        using z0 CC by simp
      have iS: "invc S" "invh S" "bh S = Suc (bh xt)" "\<not> cp \<longrightarrow> col S \<and> ccol C1"
        and iC: "cinvh C1 (Suc (bh xt) + (if cp then 1 else 0))" "cinvc C1" "crootb C1"
        using ch cc crootb_up cr CC by auto
      have sne: "S \<noteq> Lf"
        using iS(3) by auto
      have pp: "xt = Lf \<longrightarrow> par = Some p"
        using less.prems(2) CC by simp
      have st: "rbDeleteFixup_loop s (rootp xt) par w =
        bindR (rbFixupRight s (rootp xt) (Some p) w)
          (\<lambda>(t, x, w). rbDeleteFixup_loop t x (Some p) w)"
        by (rule dloop_step_R [OF z1 True pp sne])
      from dfixR_full [OF z1 ix ih iS iC, of "rootp xt" w] obtain s' x' w' where
        r: "rbFixupRight s (rootp xt) (Some p) w = ok (s', x', w')" "same s s'"
        and d: "(x' = Some p \<and> (\<exists>T. zr s' C1 T \<and> rootp T = Some p \<and> invc (paint BLACK T)
              \<and> invh T \<and> cinvh C1 (Suc (bh T))
              \<and> nodes (plug C1 T) = nodes (plug C1 (Nd S p cp kp vp xt))))
          \<or> (\<exists>C' T'. (\<forall>par w. rbDeleteFixup_loop s' x' par w = ok (s', rootp T'))
              \<and> zr s' C' T' \<and> rbt (plug C' (paint BLACK T'))
              \<and> nodes (plug C' T') = nodes (plug C1 (Nd S p cp kp vp xt)))"
        by blast
      have st': "rbDeleteFixup_loop s (rootp xt) par w = rbDeleteFixup_loop s' x' (Some p) w'"
        using st r(1) by simp
      have np: "nodes (plug C1 (Nd S p cp kp vp xt)) = nodes (plug C xt)"
        using CC by (simp add: inord_plug)
      from d show ?thesis
      proof
        assume "x' = Some p \<and> (\<exists>T. zr s' C1 T \<and> rootp T = Some p \<and> invc (paint BLACK T)
              \<and> invh T \<and> cinvh C1 (Suc (bh T))
              \<and> nodes (plug C1 T) = nodes (plug C1 (Nd S p cp kp vp xt)))"
        then obtain T where x': "x' = Some p" and
          T: "zr s' C1 T" "rootp T = Some p" "invc (paint BLACK T)" "invh T"
          "cinvh C1 (Suc (bh T))" "nodes (plug C1 T) = nodes (plug C1 (Nd S p cp kp vp xt))"
          by blast
        have lt: "csize C1 < csize C" using CC by simp
        have tl: "T = Lf \<longrightarrow> Some p = cpar C1" using T(2) by auto
        have "\<exists>s'' C' T'. rbDeleteFixup_loop s' (rootp T) (Some p) w' = ok (s'', rootp T')
          \<and> zr s'' C' T' \<and> rbt (plug C' (paint BLACK T'))
          \<and> nodes (plug C' T') = nodes (plug C1 T) \<and> same s' s''"
          by (rule less.hyps [OF lt T(1) tl T(3,4,5) iC(2,3)])
        then obtain s'' C' T' where
          f: "rbDeleteFixup_loop s' (Some p) (Some p) w' = ok (s'', rootp T')" "zr s'' C' T'"
          "rbt (plug C' (paint BLACK T'))" "nodes (plug C' T') = nodes (plug C1 T)" "same s' s''"
          unfolding T(2) by blast
        show ?thesis
          apply (rule exI [of _ s''], rule exI [of _ C'], rule exI [of _ T'])
          using st' x' f T(6) np same_trans [OF r(2) f(5)] apply simp
          done
      next
        assume "\<exists>C' T'. (\<forall>par w. rbDeleteFixup_loop s' x' par w = ok (s', rootp T'))
              \<and> zr s' C' T' \<and> rbt (plug C' (paint BLACK T'))
              \<and> nodes (plug C' T') = nodes (plug C1 (Nd S p cp kp vp xt))"
        then obtain C' T' where
          f: "\<forall>par w. rbDeleteFixup_loop s' x' par w = ok (s', rootp T')"
          "zr s' C' T'" "rbt (plug C' (paint BLACK T'))"
          "nodes (plug C' T') = nodes (plug C1 (Nd S p cp kp vp xt))"
          by blast
        show ?thesis
          apply (rule exI [of _ s'], rule exI [of _ C'], rule exI [of _ T'])
          using st' f np r(2) apply simp
          done
      qed
    qed
  qed
qed

lemma dfix:
  assumes "zr s C xt" "invc (paint BLACK xt)" "invh xt"
    "cinvh C (Suc (bh xt))" "cinvc C" "crootb C"
  shows "\<exists>s' t'. rbDeleteFixup s (rootp xt) (cpar C) = ok s' \<and> zr s' Top t' \<and> rbt t'
    \<and> nodes t' = nodes (plug C xt) \<and> same s s'"
proof -
  from dfix_loop [OF assms(1) _ assms(2-6), of "cpar C" None] obtain s1 C' T' where
    l: "rbDeleteFixup_loop s (rootp xt) (cpar C) None = ok (s1, rootp T')" "zr s1 C' T'"
    "rbt (plug C' (paint BLACK T'))" "nodes (plug C' T') = nodes (plug C xt)" "same s s1"
    by auto
  show ?thesis
  proof (cases T')
    case Lf
    have "zr s1 Top (plug C' (paint BLACK T'))"
      using l(2) Lf zr_plug [of s1 C' T'] by simp
    then show ?thesis
      using l Lf
      by (intro exI [of _ s1] exI [of _ "plug C' (paint BLACK T')"])
        (simp add: rbDeleteFixup_def inord_plug)
  next
    case (Nd tl a c k v tr)
    from set_color_zr [OF l(2) [unfolded Nd], of BLACK] obtain s2 where
      u: "upd (\<lambda>n. n\<lparr>color := BLACK\<rparr>) s1 (Some a) = ok s2"
      "zr s2 C' (Nd tl a BLACK k v tr)" "same s1 s2"
      by blast
    have "zr s2 Top (plug C' (paint BLACK T'))"
      using u(2) Nd zr_plug [of s2 C' "paint BLACK T'"] by simp
    then show ?thesis
      using l u Nd same_trans [OF l(5) u(3)]
      by (intro exI [of _ s2] exI [of _ "plug C' (paint BLACK T')"])
        (simp add: rbDeleteFixup_def inord_plug)
  qed
qed

section \<open>Deletion\<close>

text \<open>Pieces of \<open>Delete\<close>: unlinking \<open>y\<close>, and the copy of its key and value into \<open>z\<close>.\<close>

definition Delete_splice :: "('k, 'v) RbTree \<Rightarrow> addr option
    \<Rightarrow> (('k, 'v) RbTree \<times> addr option \<times> addr option) res" where
  "Delete_splice t y =
        bindR (fld left (heap t) y) (\<lambda>yl.
        bindR (if yl \<noteq> None then ok yl else fld right (heap t) y) (\<lambda>x.
        bindR (fld parent (heap t) y) (\<lambda>xparent.
        bindR (if x \<noteq> None then upd (\<lambda>n. n\<lparr>parent := xparent\<rparr>) t x else ok t) (\<lambda>t.
        bindR (fld parent (heap t) y) (\<lambda>yp.
        bindR (if yp = None then ok (t\<lparr>root := x\<rparr>)
               else bindR (fld left (heap t) yp) (\<lambda>ypl.
                      if y = ypl then upd (\<lambda>n. n\<lparr>left := x\<rparr>) t yp
                      else upd (\<lambda>n. n\<lparr>right := x\<rparr>) t yp)) (\<lambda>t.
        ok (t, x, xparent)))))))"

definition Delete_copy :: "('k, 'v) RbTree \<Rightarrow> addr option \<Rightarrow> addr option
    \<Rightarrow> ('k, 'v) RbTree res" where
  "Delete_copy t y z =
        (if y \<noteq> z then
                 bindR (fld key (heap t) y) (\<lambda>yk.
                 bindR (upd (\<lambda>n. n\<lparr>key := yk\<rparr>) t z) (\<lambda>t.
                 bindR (fld val (heap t) y) (\<lambda>yv.
                 upd (\<lambda>n. n\<lparr>val := yv\<rparr>) t z)))
               else ok t)"

lemma bindR_assoc: "bindR (bindR m f) g = bindR m (\<lambda>x. bindR (f x) g)"
  by (simp add: bindR_def split: option.splits sum.splits)

lemma Delete_split:
  "Delete t (Some z) =
        bindR (fld left (heap t) (Some z)) (\<lambda>zl.
        bindR (if zl \<noteq> None then bindR (fld right (heap t) (Some z)) (\<lambda>zr. ok (zr \<noteq> None))
               else ok False) (\<lambda>two.
        bindR (if two then successor (heap t) (Some z) else ok (Some z)) (\<lambda>y.
        bindR (Delete_splice t y) (\<lambda>(t, x, xparent).
        bindR (Delete_copy t y (Some z)) (\<lambda>t.
        bindR (fld color (heap t) y) (\<lambda>yc.
        bindR (if yc then rbDeleteFixup t x xparent else ok t) (\<lambda>t.
        ok (t\<lparr>tsize := tsize t - 1\<rparr>))))))))"
  by (simp add: Delete_def Delete_splice_def Delete_copy_def bindR_assoc)


subsection \<open>Left spines\<close>

type_synonym ('k, 'v) frame = "addr \<times> bool \<times> 'k \<times> 'v \<times> ('k, 'v) tree"

fun extL :: "('k, 'v) ctx \<Rightarrow> ('k, 'v) frame list \<Rightarrow> ('k, 'v) ctx" where
  "extL C [] = C"
| "extL C ((a, c, k, v, r) # fs) = extL (InL C a c k v r) fs"

fun plugL :: "('k, 'v) frame list \<Rightarrow> ('k, 'v) tree \<Rightarrow> ('k, 'v) tree" where
  "plugL [] t = t"
| "plugL ((a, c, k, v, r) # fs) t = Nd (plugL fs t) a c k v r"

lemma plug_extL: "plug (extL C fs) t = plug C (plugL fs t)"
  by (induction fs arbitrary: C) auto

lemma zr_extL: "zr s (extL C fs) t = zr s C (plugL fs t)"
  using zr_plug [of s "extL C fs" t] zr_plug [of s C "plugL fs t"] by (simp add: plug_extL)

lemma cbef_extL [simp]: "cbef f (extL C fs) = cbef f C"
  by (induction fs arbitrary: C) auto

lemma extL_not_Top: "C \<noteq> Top \<Longrightarrow> extL C fs \<noteq> Top"
proof (induction fs arbitrary: C)
  case Nil
  then show ?case by simp
next
  case (Cons fr fs)
  obtain a c k v r where fr: "fr = (a, c, k, v, r)"
    by (cases fr)
  from Cons.IH [of "InL C a c k v r"] show ?case
    by (simp add: fr)
qed

lemma cinvh_extL_cong:
  assumes "\<And>n. cinvh C n = cinvh C' n"
  shows "cinvh (extL C fs) n = cinvh (extL C' fs) n"
  using assms
proof (induction fs arbitrary: C C' n)
  case Nil
  then show ?case by simp
next
  case (Cons fr fs)
  obtain a c k v r where fr: "fr = (a, c, k, v, r)"
    by (cases fr)
  have "\<And>n. cinvh (InL C a c k v r) n = cinvh (InL C' a c k v r) n"
    using Cons.prems by simp
  from Cons.IH [OF this] show ?case
    by (simp add: fr)
qed

lemma cinvc_extL_cong:
  assumes "cinvc C = cinvc C'" "ccol C = ccol C'"
  shows "cinvc (extL C fs) = cinvc (extL C' fs) \<and> ccol (extL C fs) = ccol (extL C' fs)"
  using assms
proof (induction fs arbitrary: C C')
  case Nil
  then show ?case by simp
next
  case (Cons fr fs)
  obtain a c k v r where fr: "fr = (a, c, k, v, r)"
    by (cases fr)
  have "cinvc (InL C a c k v r) = cinvc (InL C' a c k v r)"
    "ccol (InL C a c k v r) = ccol (InL C' a c k v r)"
    using Cons.prems by simp_all
  from Cons.IH [OF this] show ?case
    by (simp add: fr)
qed

lemma crootb_extL_cong:
  assumes "crootb C = crootb C'" "C \<noteq> Top" "C' \<noteq> Top"
  shows "crootb (extL C fs) = crootb (extL C' fs)"
  using assms
proof (induction fs arbitrary: C C')
  case Nil
  then show ?case by simp
next
  case (Cons fr fs)
  obtain a c k v r where fr: "fr = (a, c, k, v, r)"
    by (cases fr)
  have "crootb (InL C a c k v r) = crootb (InL C' a c k v r)"
    "InL C a c k v r \<noteq> Top" "InL C' a c k v r \<noteq> Top"
    using Cons.prems by simp_all
  from Cons.IH [OF this] show ?case
    by (simp add: fr)
qed

lemma minimum_zr:
  assumes "zr s C t" "t \<noteq> Lf"
  shows "\<exists>fs y cy ky vy yr. minimum (heap s) (rootp t) = ok (Some y)
    \<and> t = plugL fs (Nd Lf y cy ky vy yr)"
  using assms
proof (induction t arbitrary: C)
  case Lf
  then show ?case by simp
next
  case (Nd l a c k v r)
  have h: "heap s a = Some \<lparr>parent = cpar C, left = rootp l, right = rootp r, color = c,
      key = k, val = v\<rparr>"
    using Nd.prems(1) by (simp add: zr_def zrep_def)
  show ?case
  proof (cases "l = Lf")
    case True
    have "minimum (heap s) (Some a) = ok (Some a)"
      using h True by (subst minimum.simps) (simp add: fld_Some)
    then show ?thesis
      using True by (intro exI [of _ "[]"] exI [of _ a] exI [of _ c]) auto
  next
    case False
    have "zr s (InL C a c k v r) l"
      using Nd.prems(1) by (simp add: zr_InL)
    from Nd.IH(1) [OF this False] obtain fs y cy ky vy yr where
      m: "minimum (heap s) (rootp l) = ok (Some y)" "l = plugL fs (Nd Lf y cy ky vy yr)"
      by blast
    have "minimum (heap s) (Some a) = ok (Some y)"
      using h False m(1) by (subst minimum.simps) (simp add: fld_Some)
    then show ?thesis
      using m(2)
      by (intro exI [of _ "(a, c, k, v, r) # fs"] exI [of _ y] exI [of _ cy] exI [of _ ky]
          exI [of _ vy] exI [of _ yr]) simp
  qed
qed

lemma successor_right:
  assumes "zr s C (Nd l z c k v r)" "r \<noteq> Lf"
  shows "\<exists>fs y cy ky vy yr. successor (heap s) (Some z) = ok (Some y)
    \<and> r = plugL fs (Nd Lf y cy ky vy yr)"
proof -
  have h: "heap s z = Some \<lparr>parent = cpar C, left = rootp l, right = rootp r, color = c,
      key = k, val = v\<rparr>"
    using assms(1) by (simp add: zr_def zrep_def)
  have "zr s (InR l z c k v C) r"
    using assms(1) by (simp add: zr_InR)
  from minimum_zr [OF this assms(2)] show ?thesis
    using h assms(2) by (simp add: successor_def fld_Some)
qed

lemma Delete_splice_zr:
  assumes "zr s C (Nd l y c k v r)" "l = Lf \<or> r = Lf"
  shows "\<exists>s1. Delete_splice s (Some y) = ok (s1, rootp (if l \<noteq> Lf then l else r), cpar C)
    \<and> zr s1 C (if l \<noteq> Lf then l else r) \<and> same s s1
    \<and> heap s1 y = Some \<lparr>parent = cpar C, left = rootp l, right = rootp r, color = c,
      key = k, val = v\<rparr>"
  using assms
  apply (cases C; cases l; cases r)
  apply (auto simp: Delete_splice_def zr_def zrep_def fld_Some upd_Some same_def)
  done


definition Delete_unlink :: "('k, 'v) RbTree \<Rightarrow> addr option \<Rightarrow> addr option
    \<Rightarrow> (('k, 'v) RbTree \<times> addr option \<times> addr option) res" where
  "Delete_unlink t y z =
     bindR (Delete_splice t y) (\<lambda>(t, x, xparent).
     bindR (Delete_copy t y z) (\<lambda>t. ok (t, x, xparent)))"

definition Delete_finish :: "bool \<Rightarrow> ('k, 'v) RbTree \<Rightarrow> addr option \<Rightarrow> addr option
    \<Rightarrow> ('k, 'v) RbTree res" where
  "Delete_finish yc t x xparent =
     bindR (if yc then rbDeleteFixup t x xparent else ok t) (\<lambda>t.
     ok (t\<lparr>tsize := tsize t - 1\<rparr>))"

lemma Delete_copy_zr:
  assumes "zr s C (Nd l a c k v r)" "heap s y = Some ny" "y \<noteq> a"
  shows "\<exists>s2. Delete_copy s (Some y) (Some a) = ok s2
    \<and> zr s2 C (Nd l a c (key ny) (val ny) r) \<and> same s s2 \<and> heap s2 y = Some ny"
  using assms
  by (cases C) (auto simp: Delete_copy_def zr_def zrep_def fld_Some upd_Some same_def)

lemma inord_plugL_min:
  "inord f (plugL fs (Nd Lf y cy ky vy yr)) = f y cy ky vy # inord f (plugL fs yr)"
  by (induction fs) auto

lemma cpar_extL_cong:
  assumes "cpar C = cpar C'"
  shows "cpar (extL C fs) = cpar (extL C' fs)"
  using assms
proof (induction fs arbitrary: C C')
  case Nil
  then show ?case by simp
next
  case (Cons fr fs)
  obtain a c k v r where fr: "fr = (a, c, k, v, r)"
    by (cases fr)
  have "cpar (InL C a c k v r) = cpar (InL C' a c k v r)"
    by simp
  from Cons.IH [OF this] show ?case
    by (simp add: fr)
qed

lemma Delete_one_child:
  assumes z0: "zr s C (Nd l z c k v r)" and lr: "l = Lf \<or> r = Lf"
  shows "\<exists>s1. Delete_unlink s (Some z) (Some z)
        = ok (s1, rootp (if l \<noteq> Lf then l else r), cpar C)
    \<and> zr s1 C (if l \<noteq> Lf then l else r) \<and> same s s1
    \<and> Delete s (Some z) = Delete_finish c s1 (rootp (if l \<noteq> Lf then l else r)) (cpar C)"
proof -
  let ?x = "if l \<noteq> Lf then l else r"
  have h: "heap s z = Some \<lparr>parent = cpar C, left = rootp l, right = rootp r, color = c,
      key = k, val = v\<rparr>"
    using z0 by (simp add: zr_def zrep_def)
  from Delete_splice_zr [OF z0 lr] obtain s1 where
    sp: "Delete_splice s (Some z) = ok (s1, rootp ?x, cpar C)" "zr s1 C ?x" "same s s1"
    "heap s1 z = Some \<lparr>parent = cpar C, left = rootp l, right = rootp r, color = c,
      key = k, val = v\<rparr>"
    by blast
  have u: "Delete_unlink s (Some z) (Some z) = ok (s1, rootp ?x, cpar C)"
    using sp(1) by (simp add: Delete_unlink_def Delete_copy_def)
  have "Delete s (Some z) = Delete_finish c s1 (rootp ?x) (cpar C)"
    unfolding Delete_split Delete_finish_def
    using h sp(1,4) lr by (cases l; cases r) (simp_all add: fld_Some Delete_copy_def)
  then show ?thesis
    using u sp(2,3) by blast
qed

lemma Delete_two_children:
  assumes z0: "zr s C (Nd l z c k v r)" and lr: "l \<noteq> Lf" "r \<noteq> Lf"
  shows "\<exists>fs y cy ky vy yr s1. successor (heap s) (Some z) = ok (Some y) \<and> y \<noteq> z
    \<and> r = plugL fs (Nd Lf y cy ky vy yr)
    \<and> (\<exists>ny. heap s y = Some ny \<and> color ny = cy \<and> key ny = ky \<and> val ny = vy)
    \<and> Delete_unlink s (Some y) (Some z)
        = ok (s1, rootp yr, cpar (extL (InR l z c ky vy C) fs))
    \<and> zr s1 (extL (InR l z c ky vy C) fs) yr \<and> same s s1
    \<and> Delete s (Some z) = Delete_finish cy s1 (rootp yr) (cpar (extL (InR l z c ky vy C) fs))"
proof -
  have h: "heap s z = Some \<lparr>parent = cpar C, left = rootp l, right = rootp r, color = c,
      key = k, val = v\<rparr>"
    using z0 by (simp add: zr_def zrep_def)
  from successor_right [OF z0 lr(2)] obtain fs y cy ky vy yr where
    su: "successor (heap s) (Some z) = ok (Some y)" and r: "r = plugL fs (Nd Lf y cy ky vy yr)"
    by blast
  let ?Cy = "extL (InR l z c k v C) fs" and ?Cy' = "extL (InR l z c ky vy C) fs"
  have zy: "zr s ?Cy (Nd Lf y cy ky vy yr)"
    using z0 r by (simp add: zr_extL zr_InR)
  have cp: "cpar ?Cy = cpar ?Cy'"
    by (rule cpar_extL_cong) simp
  have "distinct (cbefa ?Cy @ addrs (Nd Lf y cy ky vy yr) @ cafta ?Cy)"
    using zy by (simp add: zr_def zrep_def)
  then have yz: "y \<noteq> z"
    by auto
  from Delete_splice_zr [OF zy] obtain s1 where
    sp: "Delete_splice s (Some y) = ok (s1, rootp yr, cpar ?Cy)" "zr s1 ?Cy yr" "same s s1"
    "heap s1 y = Some \<lparr>parent = cpar ?Cy, left = rootp Lf, right = rootp yr, color = cy,
      key = ky, val = vy\<rparr>"
    by auto
  have hy: "heap s y = Some \<lparr>parent = cpar ?Cy, left = rootp Lf, right = rootp yr, color = cy,
      key = ky, val = vy\<rparr>"
    using zy by (simp add: zr_def zrep_def)
  have "zr s1 C (Nd l z c k v (plugL fs yr))"
    using sp(2) by (simp add: zr_extL zr_InR)
  from Delete_copy_zr [OF this sp(4) yz] obtain s2 where
    c: "Delete_copy s1 (Some y) (Some z) = ok s2" "zr s2 C (Nd l z c ky vy (plugL fs yr))"
    "same s1 s2"
    "heap s2 y = Some \<lparr>parent = cpar ?Cy, left = rootp Lf, right = rootp yr, color = cy,
      key = ky, val = vy\<rparr>"
    by auto
  have z2: "zr s2 ?Cy' yr"
    using c(2) by (simp add: zr_extL zr_InR)
  have u: "Delete_unlink s (Some y) (Some z) = ok (s2, rootp yr, cpar ?Cy')"
    using sp(1) c(1) cp by (simp add: Delete_unlink_def)
  have "Delete s (Some z) = Delete_finish cy s2 (rootp yr) (cpar ?Cy')"
    unfolding Delete_split Delete_finish_def
    using h su sp(1) c(1,4) cp lr by (cases l; cases r) (simp_all add: fld_Some)
  then show ?thesis
    using su yz r hy u z2 same_trans [OF sp(3) c(3)] by force
qed


lemma zr_tsize [simp]: "zr (s\<lparr>tsize := n\<rparr>) C t = zr s C t"
  by (simp add: zr_def)

lemma Delete_finish_Inv:
  assumes z1: "zr s1 Cx x" and sm: "same s s1" and vc: "valid_cmp (keyCmp s)"
    and ix: "invc x" "invh x" and ic: "cinvc Cx" "crootb Cx"
    and hh: "cinvh Cx (bh x + (if yc then 1 else 0))"
    and rd: "\<not> yc \<longrightarrow> col x \<and> Cx \<noteq> Top"
    and so: "ksorted (keyCmp s) (keys (plug Cx x))"
    and sz: "tsize s = int (length (addrs (plug Cx x))) + 1"
    and fr: "\<forall>a\<in>set (addrs (plug Cx x)). a < nxt s"
  shows "\<exists>s' t'. Delete_finish yc s1 (rootp x) (cpar Cx) = ok s' \<and> Inv s' t'
    \<and> nodes t' = nodes (plug Cx x)
    \<and> tsize s' = tsize s - 1 \<and> nxt s' = nxt s \<and> keyCmp s' = keyCmp s"
proof (cases yc)
  case True
  have "\<exists>s' t'. rbDeleteFixup s1 (rootp x) (cpar Cx) = ok s' \<and> zr s' Top t' \<and> rbt t'
    \<and> nodes t' = nodes (plug Cx x) \<and> same s1 s'"
    by (rule dfix [OF z1]) (use ix ic hh True in \<open>simp_all add: invc_paint\<close>)
  then obtain s2 t' where
    f: "rbDeleteFixup s1 (rootp x) (cpar Cx) = ok s2" "zr s2 Top t'" "rbt t'"
    "nodes t' = nodes (plug Cx x)" "same s1 s2"
    by blast
  let ?s' = "s2\<lparr>tsize := tsize s2 - 1\<rparr>"
  have m: "tsize s2 = tsize s" "nxt s2 = nxt s" "keyCmp s2 = keyCmp s"
    using sm f(5) by (simp_all add: same_def)
  have "Inv ?s' t'"
    unfolding Inv_def
    using f(2,3) m vc so sz fr nodes_keys [OF f(4)] nodes_addrs [OF f(4)] by simp
  then show ?thesis
    using f(1,4) m True
    by (intro exI [of _ ?s'] exI [of _ t']) (simp add: Delete_finish_def)
next
  case False
  let ?s' = "s1\<lparr>tsize := tsize s1 - 1\<rparr>"
  have m: "tsize s1 = tsize s" "nxt s1 = nxt s" "keyCmp s1 = keyCmp s"
    using sm by (simp_all add: same_def)
  have "rbt (plug Cx x)"
    using ix ic hh rd False by (simp add: rbt_def invh_plug invc_plug col_plug)
  moreover have "zr ?s' Top (plug Cx x)"
    using z1 zr_plug [of s1 Cx x] by simp
  ultimately have "Inv ?s' (plug Cx x)"
    unfolding Inv_def
    using m vc so sz fr by simp
  then show ?thesis
    using m False
    by (intro exI [of _ ?s'] exI [of _ "plug Cx x"]) (simp add: Delete_finish_def)
qed

lemma ksorted_remove:
  "ksorted cmp (xs @ a # ys) \<Longrightarrow> ksorted cmp (xs @ ys)"
  by (simp add: sorted_wrt_append)

lemma Delete_Inv:
  assumes inv: "Inv s t" and t: "t = plug C (Nd l z c k v r)"
  shows "\<exists>s' t'. Delete s (Some z) = ok s' \<and> Inv s' t'
    \<and> tsize s' = tsize s - 1 \<and> nxt s' = nxt s \<and> keyCmp s' = keyCmp s
    \<and> (if l \<noteq> Lf \<and> r \<noteq> Lf
       then \<exists>y ny ys s1 x xp. successor (heap s) (Some z) = ok (Some y) \<and> y \<noteq> z
          \<and> heap s y = Some ny
          \<and> nodes r @ caft (\<lambda>a c k v. (a, k, v)) C = (y, key ny, val ny) # ys
          \<and> nodes t' = cbef (\<lambda>a c k v. (a, k, v)) C @ nodes l @ (z, key ny, val ny) # ys
          \<and> Delete_unlink s (Some y) (Some z) = ok (s1, x, xp)
          \<and> Delete s (Some z) = Delete_finish (color ny) s1 x xp
       else nodes t' = cbef (\<lambda>a c k v. (a, k, v)) C @ nodes l @ nodes r
          @ caft (\<lambda>a c k v. (a, k, v)) C)"
proof -
  let ?Z = "Nd l z c k v r"
  from inv t have z0: "zr s C ?Z" and rb: "invh (plug C ?Z)" "invc (plug C ?Z)" "col (plug C ?Z)"
    and vc: "valid_cmp (keyCmp s)" and so: "ksorted (keyCmp s) (keys (plug C ?Z))"
    and sz: "tsize s = int (length (addrs (plug C ?Z)))"
    and fr: "\<forall>a\<in>set (addrs (plug C ?Z)). a < nxt s"
    using zr_plug [of s C ?Z] by (simp_all add: Inv_def rbt_def)
  have iz: "invh l" "invh r" "bh l = bh r" "invc l" "invc r" "\<not> c \<longrightarrow> col l \<and> col r"
    and cz: "cinvh C (bh l + (if c then 1 else 0))" "cinvc C" "\<not> ccol C \<longrightarrow> c"
    using rb by (auto simp: invh_plug invc_plug)
  have cr: "crootb C"
    using rb(3) col_plug [of C ?Z] by (cases "C = Top") auto
  have ctop: "C = Top \<longrightarrow> c"
    using rb(3) by auto
  show ?thesis
  proof (cases "l \<noteq> Lf \<and> r \<noteq> Lf")
    case False
    then have lr: "l = Lf \<or> r = Lf" by auto
    let ?x = "if l \<noteq> Lf then l else r"
    from Delete_one_child [OF z0 lr] obtain s1 where
      u: "zr s1 C ?x" "same s s1" "Delete s (Some z) = Delete_finish c s1 (rootp ?x) (cpar C)"
      by blast
    have b0: "bh l = 0" "bh r = 0"
      using lr iz(3) by auto
    have "\<exists>s' t'. Delete_finish c s1 (rootp ?x) (cpar C) = ok s' \<and> Inv s' t'
      \<and> nodes t' = nodes (plug C ?x)
      \<and> tsize s' = tsize s - 1 \<and> nxt s' = nxt s \<and> keyCmp s' = keyCmp s"
    proof (rule Delete_finish_Inv [OF u(1,2) vc])
      show "invc ?x" "invh ?x" using iz by auto
      show "cinvc C" "crootb C" using cz cr by auto
      show "cinvh C (bh ?x + (if c then 1 else 0))" using cz(1) b0 by auto
      show "\<not> c \<longrightarrow> col ?x \<and> C \<noteq> Top" using iz(6) ctop by auto
      show "ksorted (keyCmp s) (keys (plug C ?x))"
        using so lr ksorted_remove [of "keyCmp s" "cbef (\<lambda>a c k v. k) C @ keys l" k
            "keys r @ caft (\<lambda>a c k v. k) C"]
        by (auto simp: inord_plug)
      show "tsize s = int (length (addrs (plug C ?x))) + 1"
        using sz lr by (auto simp: inord_plug)
      show "\<forall>a\<in>set (addrs (plug C ?x)). a < nxt s"
        using fr lr by (auto simp: inord_plug)
    qed
    then show ?thesis
      using u(3) False lr by (auto simp: inord_plug)
  next
    case True
    then have lr: "l \<noteq> Lf" "r \<noteq> Lf" by auto
    from Delete_two_children [OF z0 lr] obtain fs y cy ky vy yr s1 ny where
      su: "successor (heap s) (Some z) = ok (Some y)" "y \<noteq> z"
      and r: "r = plugL fs (Nd Lf y cy ky vy yr)"
      and ny: "heap s y = Some ny" "color ny = cy" "key ny = ky" "val ny = vy"
      and u: "Delete_unlink s (Some y) (Some z)
        = ok (s1, rootp yr, cpar (extL (InR l z c ky vy C) fs))"
      "zr s1 (extL (InR l z c ky vy C) fs) yr" "same s s1"
      "Delete s (Some z) = Delete_finish cy s1 (rootp yr) (cpar (extL (InR l z c ky vy C) fs))"
      by blast
    let ?Cy = "extL (InR l z c k v C) fs" and ?Cy' = "extL (InR l z c ky vy C) fs"
    let ?Y = "Nd Lf y cy ky vy yr"
    have pl: "plug C ?Z = plug ?Cy ?Y"
      using r by (simp add: plug_extL)
    have iy: "invh yr" "bh yr = 0" "invc yr" "\<not> cy \<longrightarrow> col yr"
      and cy: "cinvh ?Cy (if cy then 1 else 0)" "cinvc ?Cy" "\<not> ccol ?Cy \<longrightarrow> cy"
      using rb(1,2) unfolding pl by (simp_all add: invh_plug invc_plug)
    have nt: "?Cy \<noteq> Top" "?Cy' \<noteq> Top"
      by (rule extL_not_Top, simp)+
    have cry: "crootb ?Cy"
      using rb(3) col_plug [OF nt(1), of ?Y] unfolding pl by simp
    have cy': "cinvh ?Cy' (if cy then 1 else 0)" "cinvc ?Cy'" "crootb ?Cy'"
      using cy(1) cinvh_extL_cong [of "InR l z c k v C" "InR l z c ky vy C" fs]
        cy(2) cinvc_extL_cong [of "InR l z c k v C" "InR l z c ky vy C" fs]
        cry crootb_extL_cong [of "InR l z c k v C" "InR l z c ky vy C" fs]
      by simp_all
    have nr: "nodes r = (y, ky, vy) # nodes (plugL fs yr)"
      using r by (simp add: inord_plugL_min)
    have kr: "keys r = ky # keys (plugL fs yr)"
      using r by (simp add: inord_plugL_min)
    have ar: "addrs r = y # addrs (plugL fs yr)"
      using r by (simp add: inord_plugL_min)
    have pl': "plug ?Cy' yr = plug C (Nd l z c ky vy (plugL fs yr))"
      by (simp add: plug_extL)
    have "\<exists>s' t'. Delete_finish cy s1 (rootp yr) (cpar ?Cy') = ok s' \<and> Inv s' t'
      \<and> nodes t' = nodes (plug ?Cy' yr)
      \<and> tsize s' = tsize s - 1 \<and> nxt s' = nxt s \<and> keyCmp s' = keyCmp s"
    proof (rule Delete_finish_Inv [OF u(2,3) vc])
      show "invc yr" "invh yr" using iy by auto
      show "cinvc ?Cy'" "crootb ?Cy'" using cy' by auto
      show "cinvh ?Cy' (bh yr + (if cy then 1 else 0))" using cy'(1) iy(2) by simp
      show "\<not> cy \<longrightarrow> col yr \<and> ?Cy' \<noteq> Top" using iy(4) nt by simp
      show "ksorted (keyCmp s) (keys (plug ?Cy' yr))"
        unfolding pl'
        using so kr ksorted_remove [of "keyCmp s" "cbef (\<lambda>a c k v. k) C @ keys l" k
            "ky # keys (plugL fs yr) @ caft (\<lambda>a c k v. k) C"]
        by (simp add: inord_plug)
      show "tsize s = int (length (addrs (plug ?Cy' yr))) + 1"
        unfolding pl' using sz ar by (simp add: inord_plug)
      show "\<forall>a\<in>set (addrs (plug ?Cy' yr)). a < nxt s"
        unfolding pl' using fr ar by (simp add: inord_plug)
    qed
    then obtain s' t' where
      f: "Delete_finish cy s1 (rootp yr) (cpar ?Cy') = ok s'" "Inv s' t'"
      "nodes t' = nodes (plug ?Cy' yr)"
      "tsize s' = tsize s - 1" "nxt s' = nxt s" "keyCmp s' = keyCmp s"
      by blast
    have n': "nodes t' = cbef (\<lambda>a c k v. (a, k, v)) C @ nodes l
        @ (z, ky, vy) # nodes (plugL fs yr) @ caft (\<lambda>a c k v. (a, k, v)) C"
      using f(3) unfolding pl' by (simp add: inord_plug)
    show ?thesis
      apply (rule exI [of _ s'], rule exI [of _ t'])
      using True f u su ny nr n' apply simp
      done
  qed
qed

section \<open>The in-order sequence of a store\<close>

text \<open>
  The nodes linked below a pointer, read left subtree first, then the node, then the right
  subtree, each with its key and value. This is the sequence the specification calls
  in-order. It is \<open>None\<close> when a pointer leads to no node or the links run in a cycle.
\<close>

partial_function (option) inorder_of ::
    "('k, 'v) heap \<Rightarrow> addr option \<Rightarrow> (addr \<times> 'k \<times> 'v) list option" where
  "inorder_of h p =
     (case p of None \<Rightarrow> Some []
      | Some a \<Rightarrow>
          (case h a of None \<Rightarrow> None
           | Some n \<Rightarrow>
               Option.bind (inorder_of h (left n)) (\<lambda>ls.
               Option.bind (inorder_of h (right n)) (\<lambda>rs.
               Some (ls @ (a, key n, val n) # rs)))))"

declare inorder_of.simps [code]

definition InOrder :: "('k, 'v) RbTree \<Rightarrow> (addr \<times> 'k \<times> 'v) list option" where
  "InOrder t = inorder_of (heap t) (root t)"

lemma inorder_of_repr: "repr h par t \<Longrightarrow> inorder_of h (rootp t) = Some (nodes t)"
proof (induction t arbitrary: par)
  case Lf
  then show ?case by (subst inorder_of.simps) simp
next
  case (Nd l a c k v r)
  then show ?case by (subst inorder_of.simps) auto
qed

lemma InOrder_zr: "zr s Top t \<Longrightarrow> InOrder s = Some (nodes t)"
  using inorder_of_repr [of "heap s" None t] by (simp add: InOrder_def zr_def zrep_def)

lemma repr_lookup:
  "repr h par t \<Longrightarrow> (a, k, v) \<in> set (nodes t) \<Longrightarrow> \<exists>n. h a = Some n \<and> key n = k \<and> val n = v"
  by (induction t arbitrary: par) auto

lemma addrs_nodes: "addrs t = map fst (nodes t)"
  by (simp add: inord_map)

lemma keys_nodes: "keys t = map (\<lambda>x. fst (snd x)) (nodes t)"
  by (simp add: inord_map)

subsection \<open>Minimum, maximum, successor, predecessor\<close>

lemma minimum_repr:
  "repr h par t \<Longrightarrow> t \<noteq> Lf \<Longrightarrow> minimum h (rootp t) = ok (Some (hd (addrs t)))"
proof (induction t arbitrary: par)
  case Lf
  then show ?case by simp
next
  case (Nd l a c k v r)
  show ?case
  proof (cases "l = Lf")
    case True
    then show ?thesis using Nd.prems
      by (subst minimum.simps) (simp add: fld_Some)
  next
    case False
    then have "addrs l \<noteq> []" by (cases l) auto
    then show ?thesis using Nd.prems Nd.IH(1) [of "Some a"] False
      by (subst minimum.simps) (simp add: fld_Some)
  qed
qed

lemma maximum_repr:
  "repr h par t \<Longrightarrow> t \<noteq> Lf \<Longrightarrow> maximum h (rootp t) = ok (Some (last (addrs t)))"
proof (induction t arbitrary: par)
  case Lf
  then show ?case by simp
next
  case (Nd l a c k v r)
  show ?case
  proof (cases "r = Lf")
    case True
    then show ?thesis using Nd.prems
      by (subst maximum.simps) (simp add: fld_Some)
  next
    case False
    then have "addrs r \<noteq> []" by (cases r) auto
    then show ?thesis using Nd.prems Nd.IH(2) [of "Some a"] False
      by (subst maximum.simps) (simp add: fld_Some)
  qed
qed

definition hdo :: "'a list \<Rightarrow> 'a option" where
  "hdo xs = (case xs of [] \<Rightarrow> None | x # _ \<Rightarrow> Some x)"

definition lasto :: "'a list \<Rightarrow> 'a option" where
  "lasto xs = (if xs = [] then None else Some (last xs))"

lemma hdo_simps [simp]: "hdo [] = None" "hdo (x # xs) = Some x"
  by (simp_all add: hdo_def)

lemma lasto_simps [simp]: "lasto [] = None" "lasto (xs @ [x]) = Some x" "lasto [x] = Some x"
  by (simp_all add: lasto_def)

lemma hdo_hd: "xs \<noteq> [] \<Longrightarrow> hdo xs = Some (hd xs)"
  by (cases xs) auto

lemma hdo_append: "hdo (xs @ ys) = (if xs = [] then hdo ys else hdo xs)"
  by (cases xs) auto

lemma lasto_append: "lasto (xs @ ys) = (if ys = [] then lasto xs else lasto ys)"
  by (auto simp: lasto_def)

lemma addrs_Nil [simp]: "(inord f t = []) = (t = Lf)"
  by (cases t) auto

lemma successor_loop_zr:
  assumes "zr s C t" "t \<noteq> Lf"
  shows "successor_loop (heap s) (rootp t) (cpar C) = ok (hdo (cafta C))"
  using assms
proof (induction C arbitrary: t)
  case Top
  then show ?case by (subst successor_loop.simps) simp
next
  case (InL C b c k v r)
  then show ?case
    by (subst successor_loop.simps) (cases t; auto simp: zr_def zrep_def fld_Some)
next
  case (InR l b c k v C)
  have "zr s C (Nd l b c k v t)"
    using InR.prems(1) by (simp add: zr_InR)
  from InR.IH [OF this] show ?case
    using InR.prems
    by (subst successor_loop.simps) (cases t; auto simp: zr_def zrep_def fld_Some)
qed

lemma successor_zr:
  assumes "zr s C (Nd l a c k v r)"
  shows "successor (heap s) (Some a) = ok (hdo (addrs r @ cafta C))"
proof -
  have h: "heap s a = Some \<lparr>parent = cpar C, left = rootp l, right = rootp r, color = c,
      key = k, val = v\<rparr>" and rr: "repr (heap s) (Some a) r"
    using assms by (simp_all add: zr_def zrep_def)
  show ?thesis
  proof (cases "r = Lf")
    case True
    then show ?thesis
      using h successor_loop_zr [OF assms] by (simp add: successor_def fld_Some)
  next
    case False
    then have "hdo (addrs r @ cafta C) = Some (hd (addrs r))"
      by (simp add: hdo_append hdo_hd)
    then show ?thesis
      using h False minimum_repr [OF rr False] by (simp add: successor_def fld_Some)
  qed
qed

lemma presuccessor_loop_zr:
  assumes "zr s C t" "t \<noteq> Lf"
  shows "bindR (presuccessor_loop (heap s) (rootp t)) (\<lambda>x'. fld parent (heap s) x')
    = ok (lasto (cbefa C))"
  using assms
proof (induction C arbitrary: t)
  case Top
  then show ?case
    by (subst presuccessor_loop.simps) (cases t; auto simp: zr_def zrep_def fld_Some)
next
  case (InL C b c k v r)
  have "zr s C (Nd t b c k v r)"
    using InL.prems(1) by (simp add: zr_InL)
  from InL.IH [OF this] show ?case
    using InL.prems
    by (subst presuccessor_loop.simps) (cases t; auto simp: zr_def zrep_def fld_Some)
next
  case (InR l b c k v C)
  then show ?case
    by (subst presuccessor_loop.simps)
      (cases t; auto simp: zr_def zrep_def fld_Some lasto_append)
qed

lemma presuccessor_zr:
  assumes "zr s C (Nd l a c k v r)"
  shows "presuccessor (heap s) (Some a) = ok (lasto (cbefa C @ addrs l))"
proof -
  have h: "heap s a = Some \<lparr>parent = cpar C, left = rootp l, right = rootp r, color = c,
      key = k, val = v\<rparr>" and rl: "repr (heap s) (Some a) l"
    using assms by (simp_all add: zr_def zrep_def)
  show ?thesis
  proof (cases "l = Lf")
    case False
    then have "lasto (cbefa C @ addrs l) = Some (last (addrs l))"
      by (auto simp: lasto_def)
    then show ?thesis
      using h False maximum_repr [OF rl False] by (simp add: presuccessor_def fld_Some)
  next
    case True
    show ?thesis
    proof (cases C)
      case Top
      then show ?thesis using h True by (simp add: presuccessor_def fld_Some)
    next
      case (InR l' b cb kb vb C')
      then show ?thesis using h True assms
        by (auto simp: presuccessor_def fld_Some zr_def zrep_def lasto_append)
    next
      case (InL C' b cb kb vb r')
      have "heap s b = Some \<lparr>parent = cpar C', left = Some a, right = rootp r', color = cb,
        key = kb, val = vb\<rparr>" "a \<notin> set (addrs r')"
        using assms InL by (auto simp: zr_def zrep_def)
      then show ?thesis
        using h True InL presuccessor_loop_zr [OF assms]
        by (simp add: presuccessor_def fld_Some)
    qed
  qed
qed

subsection \<open>The checker accepts a red-black tree\<close>

lemma test_zr:
  assumes "zr s C t" "invh t" "invc t" "C = Top \<longrightarrow> col t"
  shows "test s (rootp t) = ok (int (bh t) + 1, 0, True)"
  using assms
proof (induction t arbitrary: C)
  case Lf
  then show ?case by (subst test.simps) simp
next
  case (Nd l a c k v r)
  have h: "heap s a = Some \<lparr>parent = cpar C, left = rootp l, right = rootp r, color = c,
      key = k, val = v\<rparr>"
    and rl: "repr (heap s) (Some a) l" and rr: "repr (heap s) (Some a) r"
    using Nd.prems(1) by (simp_all add: zr_def zrep_def)
  have nb: "(root s = Some a \<and> c) \<or> root s \<noteq> Some a"
  proof (cases "C = Top")
    case True
    then show ?thesis using Nd.prems(4) by simp
  next
    case False
    from zr_focus_not_root [OF Nd.prems(1) False] show ?thesis by auto
  qed
  have zl: "zr s (InL C a c k v r) l" and zrr: "zr s (InR l a c k v C) r"
    using Nd.prems(1) by (simp_all add: zr_InL zr_InR)
  have tl: "test s (rootp l) = ok (int (bh l) + 1, 0, True)"
    using Nd.IH(1) [OF zl] Nd.prems by simp
  have tr: "test s (rootp r) = ok (int (bh r) + 1, 0, True)"
    using Nd.IH(2) [OF zrr] Nd.prems by simp
  have cl: "getColor (heap s) (rootp l) = ok (col l)"
    and cr: "getColor (heap s) (rootp r) = ok (col r)"
    using rl rr by (simp_all add: getColor_rootp)
  have eq: "bh l = bh r" and cc: "\<not> c \<longrightarrow> col l \<and> col r"
    using Nd.prems by simp_all
  from nb show ?case
  proof
    assume "root s = Some a \<and> c"
    then show ?thesis
      using tl tr eq by (subst test.simps) (simp add: h fld_Some)
  next
    assume "root s \<noteq> Some a"
    then have ne: "Some a \<noteq> root s" by auto
    show ?thesis
      using tl tr cl cr eq cc ne by (subst test.simps) (simp add: h fld_Some)
  qed
qed

lemma IsRbTree_zr:
  assumes "zr s Top t" "rbt t"
  shows "IsRbTree s = ok (True, None)"
proof -
  have "root s = rootp t"
    using assms(1) by (simp add: zr_def zrep_def)
  moreover have "test s (rootp t) = ok (int (bh t) + 1, 0, True)"
    using test_zr [OF assms(1)] assms(2) by (simp add: rbt_def)
  ultimately show ?thesis
    by (simp add: IsRbTree_def)
qed

subsection \<open>Every node of a tree has a zipper\<close>

lemma zipper_ex_ctx:
  "a \<in> set (addrs t) \<Longrightarrow> \<exists>C l c k v r. plug D t = plug C (Nd l a c k v r)"
proof (induction t arbitrary: D)
  case Lf
  then show ?case by simp
next
  case (Nd l b c k v r)
  consider "a = b" | "a \<in> set (addrs l)" | "a \<in> set (addrs r)"
    using Nd.prems by auto
  then show ?case
  proof cases
    case 1
    then show ?thesis by blast
  next
    case 2
    from Nd.IH(1) [OF this, of "InL D b c k v r"] show ?thesis by simp
  next
    case 3
    from Nd.IH(2) [OF this, of "InR l b c k v D"] show ?thesis by simp
  qed
qed

lemma zipper_ex:
  "a \<in> set (addrs t) \<Longrightarrow> \<exists>C l c k v r. t = plug C (Nd l a c k v r)"
  using zipper_ex_ctx [of a t Top] by simp

section \<open>Trees built by \<open>New\<close>, \<open>Insert\<close> and \<open>Delete\<close>\<close>

text \<open>
  A node is live in a tree when it occurs in the in-order sequence of the tree, that is,
  when it is linked below the root.
\<close>

definition live :: "('k, 'v) RbTree \<Rightarrow> addr option \<Rightarrow> bool" where
  "live s z = (case InOrder s of None \<Rightarrow> False
     | Some xs \<Rightarrow> (case z of None \<Rightarrow> False | Some a \<Rightarrow> a \<in> fst ` set xs))"

text \<open>
  The trees a client can build: \<open>New\<close> with a valid comparator, then any calls of
  \<open>Insert\<close> and of \<open>Delete\<close>, where the handle given to \<open>Delete\<close> is nil or a node
  that is live in the tree at the time of the call. The two other calls that write to a
  tree are among the steps as well: \<open>Clear\<close>, and \<open>SetValue\<close> on a live node (that of
  the node, which the one of the cursor calls).
\<close>

inductive reachable :: "('k, 'v) RbTree \<Rightarrow> bool" where
  reach_New: "valid_cmp cmp \<Longrightarrow> reachable (New cmp)"
| reach_Insert: "reachable s \<Longrightarrow> Insert s k v = ok s' \<Longrightarrow> reachable s'"
| reach_Delete: "reachable s \<Longrightarrow> z = None \<or> live s z \<Longrightarrow> Delete s z = ok s' \<Longrightarrow> reachable s'"
| reach_Clear: "reachable s \<Longrightarrow> reachable (Clear s)"
| reach_SetValue: "reachable s \<Longrightarrow> live s z \<Longrightarrow> Node_SetValue (heap s) z v = ok h'
    \<Longrightarrow> reachable (s\<lparr>heap := h'\<rparr>)"

abbreviation ekey :: "addr \<times> 'k \<times> 'v \<Rightarrow> 'k" where
  "ekey x \<equiv> fst (snd x)"

lemma Inv_New: "valid_cmp cmp \<Longrightarrow> Inv (New cmp) Lf"
  by (simp add: Inv_def New_def zr_def zrep_def rbt_def)

lemma Delete_None: "Delete s None = ok s"
  by (simp add: Delete_def)

lemma live_Inv:
  assumes "Inv s t"
  shows "live s z = (\<exists>a. z = Some a \<and> a \<in> set (addrs t))"
proof -
  have "InOrder s = Some (nodes t)"
    using assms by (simp add: Inv_def InOrder_zr)
  then show ?thesis
    by (cases z) (simp_all add: live_def addrs_nodes)
qed

lemma Inv_InOrder: "Inv s t \<Longrightarrow> InOrder s = Some (nodes t)"
  by (simp add: Inv_def InOrder_zr)

lemma Delete_live_Inv:
  assumes "Inv s t" "live s z"
  shows "\<exists>s' t'. Delete s z = ok s' \<and> Inv s' t'"
proof -
  from assms obtain a where a: "z = Some a" "a \<in> set (addrs t)"
    by (auto simp: live_Inv)
  from zipper_ex [OF a(2)] obtain C l c k v r where t: "t = plug C (Nd l a c k v r)"
    by blast
  from Delete_Inv [OF assms(1) t] show ?thesis
    unfolding a(1) by blast
qed

lemma Inv_Clear: "Inv s t \<Longrightarrow> Inv (Clear s) Lf"
  by (simp add: Inv_def Clear_def zr_def zrep_def rbt_def)

lemma set_val_zr:
  assumes "zr s C (Nd l a c k v r)"
  shows "\<exists>h'. Node_SetValue (heap s) (Some a) v' = ok h'
    \<and> zr (s\<lparr>heap := h'\<rparr>) C (Nd l a c k v' r)"
  using assms by (cases C) (auto simp: Node_SetValue_def store_def zr_def zrep_def)

lemma Inv_SetValue:
  assumes "Inv s t" "live s z" "Node_SetValue (heap s) z v' = ok h'"
  shows "\<exists>t'. Inv (s\<lparr>heap := h'\<rparr>) t'"
proof -
  from assms(1,2) obtain a where a: "z = Some a" "a \<in> set (addrs t)"
    by (auto simp: live_Inv)
  from zipper_ex [OF a(2)] obtain C l c k v r where t: "t = plug C (Nd l a c k v r)"
    by blast
  have "zr s Top t"
    using assms(1) by (simp add: Inv_def)
  then have "zr s C (Nd l a c k v r)"
    using zr_plug [of s C "Nd l a c k v r"] t by simp
  from set_val_zr [OF this, of v'] assms(3) a(1)
  have "zr (s\<lparr>heap := h'\<rparr>) C (Nd l a c k v' r)"
    by (auto simp: ok_inject)
  then have z: "zr (s\<lparr>heap := h'\<rparr>) Top (plug C (Nd l a c k v' r))"
    using zr_plug [of "s\<lparr>heap := h'\<rparr>" C "Nd l a c k v' r"] by simp
  have cl: "col (plug C (Nd l a c k v' r)) = col (plug C (Nd l a c k v r))"
    by (cases "C = Top") (simp_all add: col_plug)
  have ih: "invh (plug C (Nd l a c k v' r)) = invh (plug C (Nd l a c k v r))"
    by (simp add: invh_plug)
  have ic: "invc (plug C (Nd l a c k v' r)) = invc (plug C (Nd l a c k v r))"
    by (simp add: invc_plug)
  have "rbt t"
    using assms(1) by (simp add: Inv_def)
  then have r: "rbt (plug C (Nd l a c k v' r))"
    by (simp only: rbt_def t ih ic cl)
  have "Inv (s\<lparr>heap := h'\<rparr>) (plug C (Nd l a c k v' r))"
    using assms(1) z r by (simp add: Inv_def t inord_plug)
  then show ?thesis ..
qed

lemma reachable_Inv: "reachable s \<Longrightarrow> \<exists>t. Inv s t"
proof (induction rule: reachable.induct)
  case (reach_New cmp)
  then show ?case using Inv_New by blast
next
  case (reach_Insert s k v s')
  then obtain t where "Inv s t" by blast
  from Insert_Inv [OF this, of k v] reach_Insert.hyps(2) show ?case
    by (auto simp: ok_inject)
next
  case (reach_Delete s z s')
  then obtain t where t: "Inv s t" by blast
  from reach_Delete.hyps(2) show ?case
  proof
    assume "z = None"
    then have "s' = s"
      using reach_Delete.hyps(3) by (simp add: Delete_None ok_inject)
    then show ?thesis using t by blast
  next
    assume "live s z"
    from Delete_live_Inv [OF t this] reach_Delete.hyps(3) show ?thesis
      by (auto simp: ok_inject)
  qed
next
  case (reach_Clear s)
  then show ?case using Inv_Clear by blast
next
  case (reach_SetValue s z v h')
  then obtain t where "Inv s t" by blast
  from Inv_SetValue [OF this reach_SetValue.hyps(2,3)] show ?case .
qed

lemma Inv_IsRbTree: "Inv s t \<Longrightarrow> IsRbTree s = ok (True, None)"
  using IsRbTree_zr [of s t] by (simp add: Inv_def)

lemma reachable_Insert_total:
  assumes "reachable s"
  shows "\<exists>s'. Insert s k v = ok s' \<and> reachable s'"
proof -
  from reachable_Inv [OF assms] obtain t where "Inv s t" by blast
  from Insert_Inv [OF this, of k v] obtain s' where "Insert s k v = ok s'" by blast
  then show ?thesis
    using reach_Insert [OF assms] by blast
qed

lemma reachable_Delete_total:
  assumes "reachable s" "z = None \<or> live s z"
  shows "\<exists>s'. Delete s z = ok s' \<and> reachable s'"
proof -
  from reachable_Inv [OF assms(1)] obtain t where t: "Inv s t" by blast
  have "\<exists>s'. Delete s z = ok s'"
    using assms(2) Delete_live_Inv [OF t] Delete_None by blast
  then show ?thesis
    using reach_Delete [OF assms] by blast
qed

subsection \<open>Example trees\<close>

definition int_cmp :: "int \<Rightarrow> int \<Rightarrow> int" where
  "int_cmp a b = (if a < b then - 1 else if b < a then 1 else 0)"

lemma valid_int_cmp: "valid_cmp int_cmp"
  by (simp add: valid_cmp_def int_cmp_def)

text \<open>The value a call returned; it is used on calls that do return.\<close>

definition returned :: "'a res \<Rightarrow> 'a" where
  "returned r = (case r of Some (Inr x) \<Rightarrow> x)"

lemma returned_ok [simp]: "returned (ok x) = x"
  by (simp add: returned_def ok_def)

fun insert_all :: "('k, 'v) RbTree \<Rightarrow> ('k \<times> 'v) list \<Rightarrow> ('k, 'v) RbTree res" where
  "insert_all t [] = ok t"
| "insert_all t ((k, v) # kvs) = bindR (Insert t k v) (\<lambda>t. insert_all t kvs)"

lemma insert_all_reachable:
  "reachable s \<Longrightarrow> \<exists>s'. insert_all s kvs = ok s' \<and> reachable s'"
proof (induction kvs arbitrary: s)
  case Nil
  then show ?case by simp
next
  case (Cons kv kvs)
  obtain k v where kv: "kv = (k, v)" by (cases kv)
  from reachable_Insert_total [OF Cons.prems, of k v] obtain s1 where
    s1: "Insert s k v = ok s1" "reachable s1" by blast
  from Cons.IH [OF s1(2)] show ?case
    by (simp add: kv s1(1))
qed

lemma returned_insert_all_reachable:
  "valid_cmp cmp \<Longrightarrow> reachable (returned (insert_all (New cmp) kvs))"
  using insert_all_reachable [OF reach_New, of cmp kvs] by auto

text \<open>The tree that holds the keys 1, 3, 5 and 7, inserted in this order.\<close>

definition tree1357 :: "(int, int) RbTree" where
  "tree1357 = returned (insert_all (New int_cmp) [(1, 10), (3, 30), (5, 50), (7, 70)])"

lemma reachable_tree1357: "reachable tree1357"
  unfolding tree1357_def by (rule returned_insert_all_reachable [OF valid_int_cmp])

lemma InOrder_tree1357:
  "InOrder tree1357 = Some [(0, 1, 10), (1, 3, 30), (2, 5, 50), (3, 7, 70)]"
  by code_simp

section \<open>The red-black properties after every call\<close>

text \<open>
  C1. \<open>Delete\<close> does not check its handle. When every handle given to \<open>Delete\<close> is nil
  or a node that is live in the tree at the time of the call, the red-black properties
  hold after every call: every tree built from \<open>New\<close> with a valid comparator by such
  calls of \<open>Insert\<close> and \<open>Delete\<close> (also with calls of \<open>Clear\<close>, and of \<open>SetValue\<close>
  on live nodes, among them) passes the checker, \<open>IsRbTree\<close> returns \<open>(true, nil)\<close>. Both calls return on such a tree and their result is again such a
  tree. The store then holds a tree whose root is black, in which no red node has a red
  child and in which all paths to nil cross the same number of black nodes. For a handle
  that is no longer in the tree the properties can fail; the run after the witness shows
  it.
\<close>

theorem rb_properties_after_every_call:
  assumes "reachable s"
  shows "IsRbTree s = ok (True, None)
    \<and> (\<exists>t. zr s Top t \<and> col t \<and> invc t \<and> invh t)
    \<and> (\<exists>s'. Insert s k v = ok s' \<and> reachable s' \<and> IsRbTree s' = ok (True, None))
    \<and> (z = None \<or> live s z \<longrightarrow>
         (\<exists>s'. Delete s z = ok s' \<and> reachable s' \<and> IsRbTree s' = ok (True, None)))"
proof -
  have chk: "IsRbTree s' = ok (True, None)" if "reachable s'" for s' :: "('a, 'b) RbTree"
    using reachable_Inv [OF that] Inv_IsRbTree by blast
  from reachable_Inv [OF assms] obtain t where t: "Inv s t" by blast
  then have "zr s Top t \<and> col t \<and> invc t \<and> invh t"
    by (simp add: Inv_def rbt_def)
  then have shape: "\<exists>t. zr s Top t \<and> col t \<and> invc t \<and> invh t" ..
  have ins: "\<exists>s'. Insert s k v = ok s' \<and> reachable s' \<and> IsRbTree s' = ok (True, None)"
    using reachable_Insert_total [OF assms, of k v] chk by blast
  have del: "z = None \<or> live s z \<longrightarrow>
         (\<exists>s'. Delete s z = ok s' \<and> reachable s' \<and> IsRbTree s' = ok (True, None))"
    using reachable_Delete_total [OF assms, of z] chk by blast
  from chk [OF assms] shape ins del show ?thesis by blast
qed

theorem rb_properties_after_every_call_witness:
  "IsRbTree tree1357 = ok (True, None)
    \<and> (\<exists>t. zr tree1357 Top t \<and> col t \<and> invc t \<and> invh t)
    \<and> (\<exists>s'. Insert tree1357 4 40 = ok s' \<and> reachable s' \<and> IsRbTree s' = ok (True, None))
    \<and> live tree1357 (Some 1)
    \<and> (\<exists>s'. Delete tree1357 (Some 1) = ok s' \<and> reachable s' \<and> IsRbTree s' = ok (True, None))"
proof -
  have l: "live tree1357 (Some 1)"
    by (simp add: live_def InOrder_tree1357)
  from rb_properties_after_every_call [OF reachable_tree1357, of 4 40 "Some 1"] l
  show ?thesis by blast
qed

text \<open>
  A run in which \<open>Delete\<close> gets a handle that has left the tree. The keys 1, 3, 5 and 7
  are inserted; \<open>h\<close> is the node \<open>FindNode\<close> returns for 5. Deleting the node of 3 takes
  the node \<open>h\<close> out of the tree, because it is the successor and its contents are moved.
  A second \<open>Delete\<close>, on \<open>h\<close>, returns, and the checker then reports that property 5
  is violated.
\<close>

definition stale_handle_run :: "(bool \<times> go_error option) res" where
  "stale_handle_run =
     bindR (insert_all (New int_cmp) [(1, 10 :: int), (3, 30), (5, 50), (7, 70)]) (\<lambda>s.
     bindR (FindNode s 5) (\<lambda>h.
     bindR (FindNode s 3) (\<lambda>z.
     bindR (Delete s z) (\<lambda>s1.
     bindR (Delete s1 h) (\<lambda>s2. IsRbTree s2)))))"

theorem stale_handle_breaks_black_height:
  "stale_handle_run = ok (False, Some (ViolateProperty 5))"
  by code_simp

section \<open>What \<open>Insert\<close> does\<close>

lemma Inv_fresh:
  assumes "Inv s t"
  shows "nxt s \<notin> fst ` set (nodes t)"
proof -
  have "\<forall>a\<in>set (addrs t). a < nxt s"
    using assms by (simp add: Inv_def)
  then have "nxt s \<notin> set (addrs t)"
    by auto
  then show ?thesis
    by (simp add: addrs_nodes)
qed

text \<open>
  C3. On a tree built by \<open>Insert\<close> and \<open>Delete\<close>, \<open>Insert\<close> returns, and the in-order
  sequence of the new tree is the old one with one entry more: a node at an address that
  was not in the tree, holding the given key and value. All old entries stay as they were,
  also those with an equal key. The new entry stands after every entry whose key is not
  greater than the new key (ties go to the right) and before every entry whose key is
  greater. \<open>Size\<close> grows by one. On an empty tree the result is the old store with the
  new node in it, black, without children and parent, and the root pointing to it.
\<close>

theorem insert_adds_one_node:
  assumes "reachable s"
  shows "\<exists>s' xs ys. Insert s k v = ok s'
    \<and> InOrder s = Some (xs @ ys) \<and> InOrder s' = Some (xs @ (nxt s, k, v) # ys)
    \<and> nxt s \<notin> fst ` set (xs @ ys)
    \<and> (\<forall>x\<in>set xs. \<not> keyCmp s k (ekey x) < 0) \<and> (\<forall>x\<in>set ys. keyCmp s k (ekey x) < 0)
    \<and> Size s' = Size s + 1
    \<and> (root s = None \<longrightarrow> s' = s\<lparr>heap := (heap s)(nxt s \<mapsto>
          \<lparr>parent = None, left = None, right = None, color = BLACK, key = k, val = v\<rparr>),
          nxt := Suc (nxt s), tsize := tsize s + 1, root := Some (nxt s)\<rparr>)"
proof -
  from reachable_Inv [OF assms] obtain t where t: "Inv s t" by blast
  from Insert_Inv [OF t, of k v] obtain s' t' xs ys where
    i: "Insert s k v = ok s'" "Inv s' t'" "nodes t = xs @ ys" "nodes t' = xs @ (nxt s, k, v) # ys"
    "\<forall>x\<in>set xs. \<not> keyCmp s k (ekey x) < 0" "\<forall>x\<in>set ys. keyCmp s k (ekey x) < 0"
    "tsize s' = tsize s + 1"
    by blast
  have o: "InOrder s = Some (xs @ ys)" "InOrder s' = Some (xs @ (nxt s, k, v) # ys)"
    using Inv_InOrder [OF t] Inv_InOrder [OF i(2)] i(3,4) by simp_all
  have f: "nxt s \<notin> fst ` set (xs @ ys)"
    using Inv_fresh [OF t] i(3) by simp
  have e: "root s = None \<longrightarrow> s' = s\<lparr>heap := (heap s)(nxt s \<mapsto>
          \<lparr>parent = None, left = None, right = None, color = BLACK, key = k, val = v\<rparr>),
          nxt := Suc (nxt s), tsize := tsize s + 1, root := Some (nxt s)\<rparr>"
    using Insert_empty [of s k v] i(1) by (auto simp: ok_inject)
  have sz: "Size s' = Size s + 1"
    using i(7) by (simp add: Size_def)
  show ?thesis
    apply (rule exI [of _ s'], rule exI [of _ xs], rule exI [of _ ys])
    using i(1) o f i(5,6) sz e apply (intro conjI)
           apply assumption+
    done
qed

theorem insert_adds_one_node_witness:
  "(\<exists>s' xs ys. Insert tree1357 3 31 = ok s'
      \<and> InOrder tree1357 = Some (xs @ ys) \<and> InOrder s' = Some (xs @ (nxt tree1357, 3, 31) # ys)
      \<and> nxt tree1357 \<notin> fst ` set (xs @ ys)
      \<and> (\<forall>x\<in>set xs. \<not> keyCmp tree1357 3 (ekey x) < 0)
      \<and> (\<forall>x\<in>set ys. keyCmp tree1357 3 (ekey x) < 0)
      \<and> Size s' = Size tree1357 + 1)
   \<and> InOrder (returned (Insert tree1357 3 31))
       = Some [(0, 1, 10), (1, 3, 30), (4, 3, 31), (2, 5, 50), (3, 7, 70)]
   \<and> Size (returned (Insert tree1357 3 31)) = 5
   \<and> Insert (New int_cmp) 3 (31 :: int) = ok \<lparr>heap = [0 \<mapsto>
          \<lparr>parent = None, left = None, right = None, color = BLACK, key = 3, val = 31\<rparr>],
          nxt = 1, root = Some 0, tsize = 1, keyCmp = int_cmp\<rparr>"
proof -
  have a: "InOrder (returned (Insert tree1357 3 31))
       = Some [(0, 1, 10), (1, 3, 30), (4, 3, 31), (2, 5, 50), (3, 7, 70)]"
    by code_simp
  have b: "Size (returned (Insert tree1357 3 31)) = 5"
    by code_simp
  have c: "Insert (New int_cmp) 3 (31 :: int) = ok \<lparr>heap = [0 \<mapsto>
          \<lparr>parent = None, left = None, right = None, color = BLACK, key = 3, val = 31\<rparr>],
          nxt = 1, root = Some 0, tsize = 1, keyCmp = int_cmp\<rparr>"
    using insert_adds_one_node [OF reach_New [OF valid_int_cmp], of 3 31]
    by (auto simp: New_def)
  from insert_adds_one_node [OF reachable_tree1357, of 3 31] obtain s' xs ys where
    d: "Insert tree1357 3 31 = ok s'"
      "InOrder tree1357 = Some (xs @ ys)" "InOrder s' = Some (xs @ (nxt tree1357, 3, 31) # ys)"
      "nxt tree1357 \<notin> fst ` set (xs @ ys)"
      "\<forall>x\<in>set xs. \<not> keyCmp tree1357 3 (ekey x) < 0"
      "\<forall>x\<in>set ys. keyCmp tree1357 3 (ekey x) < 0"
      "Size s' = Size tree1357 + 1"
    by blast
  have "\<exists>s' xs ys. Insert tree1357 3 31 = ok s'
      \<and> InOrder tree1357 = Some (xs @ ys) \<and> InOrder s' = Some (xs @ (nxt tree1357, 3, 31) # ys)
      \<and> nxt tree1357 \<notin> fst ` set (xs @ ys)
      \<and> (\<forall>x\<in>set xs. \<not> keyCmp tree1357 3 (ekey x) < 0)
      \<and> (\<forall>x\<in>set ys. keyCmp tree1357 3 (ekey x) < 0)
      \<and> Size s' = Size tree1357 + 1"
    apply (rule exI [of _ s'], rule exI [of _ xs], rule exI [of _ ys])
    using d apply (intro conjI)
          apply assumption+
    done
  then show ?thesis
    using a b c by (intro conjI)
qed

section \<open>What \<open>Delete\<close> does\<close>

lemma Inv_distinct: "Inv s t \<Longrightarrow> distinct (map fst (nodes t))"
  by (simp add: Inv_def zr_def zrep_def addrs_nodes [symmetric])

lemma Inv_zipper:
  assumes "Inv s t" "live s (Some z)"
  shows "\<exists>C l c k v r. t = plug C (Nd l z c k v r) \<and> zr s C (Nd l z c k v r)
    \<and> heap s z = Some \<lparr>parent = cpar C, left = rootp l, right = rootp r, color = c,
        key = k, val = v\<rparr>"
proof -
  from assms have "z \<in> set (addrs t)"
    by (simp add: live_Inv)
  from zipper_ex [OF this] obtain C l c k v r where t: "t = plug C (Nd l z c k v r)"
    by blast
  have "zr s Top t"
    using assms(1) by (simp add: Inv_def)
  then have z: "zr s C (Nd l z c k v r)"
    using zr_plug [of s C "Nd l z c k v r"] t by simp
  then have "heap s z = Some \<lparr>parent = cpar C, left = rootp l, right = rootp r, color = c,
        key = k, val = v\<rparr>"
    by (simp add: zr_def zrep_def)
  with t z show ?thesis by blast
qed

lemma Delete_two_children_Inv:
  assumes inv: "Inv s t" and lv: "live s (Some z)"
    and zlc: "fld left (heap s) (Some z) = ok (Some lc)"
    and zrc: "fld right (heap s) (Some z) = ok (Some rc)"
  shows "\<exists>y ny pre kz vz post s1 x xp s' t'.
      successor (heap s) (Some z) = ok (Some y) \<and> y \<noteq> z \<and> heap s y = Some ny
    \<and> nodes t = pre @ (z, kz, vz) # (y, key ny, val ny) # post
    \<and> Delete_unlink s (Some y) (Some z) = ok (s1, x, xp)
    \<and> Delete s (Some z) = Delete_finish (color ny) s1 x xp
    \<and> Delete s (Some z) = ok s' \<and> Inv s' t'
    \<and> nodes t' = pre @ (z, key ny, val ny) # post
    \<and> tsize s' = tsize s - 1"
proof -
  from Inv_zipper [OF inv lv] obtain C l c k v r where
    t: "t = plug C (Nd l z c k v r)"
    and h: "heap s z = Some \<lparr>parent = cpar C, left = rootp l, right = rootp r, color = c,
        key = k, val = v\<rparr>"
    by blast
  have "rootp l = Some lc" "rootp r = Some rc"
    using zlc zrc h by (simp_all add: fld_Some ok_inject)
  then have lr: "l \<noteq> Lf \<and> r \<noteq> Lf"
    by auto
  from Delete_Inv [OF inv t] lr obtain s' t' y ny ys s1 x xp where
    d: "Delete s (Some z) = ok s'" "Inv s' t'" "tsize s' = tsize s - 1"
      "successor (heap s) (Some z) = ok (Some y)" "y \<noteq> z" "heap s y = Some ny"
      "nodes r @ caft (\<lambda>a c k v. (a, k, v)) C = (y, key ny, val ny) # ys"
      "nodes t' = cbef (\<lambda>a c k v. (a, k, v)) C @ nodes l @ (z, key ny, val ny) # ys"
      "Delete_unlink s (Some y) (Some z) = ok (s1, x, xp)"
      "Delete s (Some z) = Delete_finish (color ny) s1 x xp"
    by auto
  let ?pre = "cbef (\<lambda>a c k v. (a, k, v)) C @ nodes l"
  have n: "nodes t = ?pre @ (z, k, v) # (y, key ny, val ny) # ys"
    using d(7) by (simp add: t inord_plug)
  have n': "nodes t' = ?pre @ (z, key ny, val ny) # ys"
    using d(8) by simp
  show ?thesis
    apply (rule exI [of _ y], rule exI [of _ ny], rule exI [of _ ?pre], rule exI [of _ k],
        rule exI [of _ v], rule exI [of _ ys], rule exI [of _ s1], rule exI [of _ x],
        rule exI [of _ xp], rule exI [of _ s'], rule exI [of _ t'])
    using d(4,5,6) n d(9,10,1,2) n' d(3) apply (intro conjI)
             apply assumption+
    done
qed

text \<open>
  C4. \<open>Delete\<close> with the nil handle returns the tree as it is. On a live node \<open>z\<close> of a
  built tree whose two children are not nil, \<open>Delete\<close> returns; \<open>y\<close>, the successor of
  \<open>z\<close>, is the next entry of the in-order sequence and is the node taken out of the tree:
  after the call the sequence has lost the entry of \<open>y\<close>, and \<open>z\<close> stands at its old
  place with the key and the value of \<open>y\<close>. \<open>Size\<close> is one less. With \<open>s1\<close> the tree
  after unlinking \<open>y\<close> and copying its contents, the rest of \<open>Delete\<close> is the fixup when
  \<open>y\<close> was black and nothing when it was red, then the decrement of the size.
\<close>

theorem delete_nil_and_two_children:
  "Delete s None = ok s
   \<and> (reachable s \<and> live s (Some z) \<and> fld left (heap s) (Some z) = ok (Some lc)
        \<and> fld right (heap s) (Some z) = ok (Some rc) \<longrightarrow>
      (\<exists>y ny pre kz vz post s1 x xp s'.
          successor (heap s) (Some z) = ok (Some y) \<and> y \<noteq> z \<and> heap s y = Some ny
        \<and> InOrder s = Some (pre @ (z, kz, vz) # (y, key ny, val ny) # post)
        \<and> Delete_unlink s (Some y) (Some z) = ok (s1, x, xp)
        \<and> Delete s (Some z) = bindR (if color ny then rbDeleteFixup s1 x xp else ok s1)
             (\<lambda>t. ok (t\<lparr>tsize := tsize t - 1\<rparr>))
        \<and> Delete s (Some z) = ok s'
        \<and> InOrder s' = Some (pre @ (z, key ny, val ny) # post)
        \<and> live s' (Some z) \<and> \<not> live s' (Some y)
        \<and> Size s' = Size s - 1))"
proof (intro conjI impI)
  show "Delete s None = ok s"
    by (rule Delete_None)
next
  assume a: "reachable s \<and> live s (Some z) \<and> fld left (heap s) (Some z) = ok (Some lc)
        \<and> fld right (heap s) (Some z) = ok (Some rc)"
  from reachable_Inv [of s] a obtain t where t: "Inv s t" by blast
  from Delete_two_children_Inv [OF t, of z lc rc] a
  obtain y ny pre kz vz post s1 x xp s' t' where
    d: "successor (heap s) (Some z) = ok (Some y)" "y \<noteq> z" "heap s y = Some ny"
      "nodes t = pre @ (z, kz, vz) # (y, key ny, val ny) # post"
      "Delete_unlink s (Some y) (Some z) = ok (s1, x, xp)"
      "Delete s (Some z) = Delete_finish (color ny) s1 x xp"
      "Delete s (Some z) = ok s'" "Inv s' t'"
      "nodes t' = pre @ (z, key ny, val ny) # post"
      "tsize s' = tsize s - 1"
    by blast
  have o: "InOrder s = Some (pre @ (z, kz, vz) # (y, key ny, val ny) # post)"
    using Inv_InOrder [OF t] d(4) by simp
  have o': "InOrder s' = Some (pre @ (z, key ny, val ny) # post)"
    using Inv_InOrder [OF d(8)] d(9) by simp
  have f: "Delete s (Some z) = bindR (if color ny then rbDeleteFixup s1 x xp else ok s1)
             (\<lambda>t. ok (t\<lparr>tsize := tsize t - 1\<rparr>))"
    using d(6) by (simp add: Delete_finish_def)
  have lz: "live s' (Some z)"
    by (simp add: live_def o')
  have "distinct (map fst (pre @ (z, kz, vz) # (y, key ny, val ny) # post))"
    using Inv_distinct [OF t] d(4) by simp
  then have ly: "\<not> live s' (Some y)"
    using d(2) by (auto simp: live_def o')
  have sz: "Size s' = Size s - 1"
    using d(10) by (simp add: Size_def)
  show "\<exists>y ny pre kz vz post s1 x xp s'.
          successor (heap s) (Some z) = ok (Some y) \<and> y \<noteq> z \<and> heap s y = Some ny
        \<and> InOrder s = Some (pre @ (z, kz, vz) # (y, key ny, val ny) # post)
        \<and> Delete_unlink s (Some y) (Some z) = ok (s1, x, xp)
        \<and> Delete s (Some z) = bindR (if color ny then rbDeleteFixup s1 x xp else ok s1)
             (\<lambda>t. ok (t\<lparr>tsize := tsize t - 1\<rparr>))
        \<and> Delete s (Some z) = ok s'
        \<and> InOrder s' = Some (pre @ (z, key ny, val ny) # post)
        \<and> live s' (Some z) \<and> \<not> live s' (Some y)
        \<and> Size s' = Size s - 1"
    apply (rule exI [of _ y], rule exI [of _ ny], rule exI [of _ pre], rule exI [of _ kz],
        rule exI [of _ vz], rule exI [of _ post], rule exI [of _ s1], rule exI [of _ x],
        rule exI [of _ xp], rule exI [of _ s'])
    using d(1,2,3) o d(5) f d(7) o' lz ly sz apply (intro conjI)
              apply assumption+
    done
qed

theorem delete_nil_and_two_children_witness:
  "Delete tree1357 None = ok tree1357
   \<and> reachable tree1357 \<and> live tree1357 (Some 1)
   \<and> fld left (heap tree1357) (Some 1) = ok (Some 0)
   \<and> fld right (heap tree1357) (Some 1) = ok (Some 2)
   \<and> (\<exists>y ny pre kz vz post s1 x xp s'.
          successor (heap tree1357) (Some 1) = ok (Some y) \<and> y \<noteq> 1
        \<and> heap tree1357 y = Some ny
        \<and> InOrder tree1357 = Some (pre @ (1, kz, vz) # (y, key ny, val ny) # post)
        \<and> Delete_unlink tree1357 (Some y) (Some 1) = ok (s1, x, xp)
        \<and> Delete tree1357 (Some 1)
            = bindR (if color ny then rbDeleteFixup s1 x xp else ok s1)
                (\<lambda>t. ok (t\<lparr>tsize := tsize t - 1\<rparr>))
        \<and> Delete tree1357 (Some 1) = ok s'
        \<and> InOrder s' = Some (pre @ (1, key ny, val ny) # post)
        \<and> live s' (Some 1) \<and> \<not> live s' (Some y)
        \<and> Size s' = Size tree1357 - 1)
   \<and> successor (heap tree1357) (Some 1) = ok (Some 2)
   \<and> InOrder (returned (Delete tree1357 (Some 1))) = Some [(0, 1, 10), (1, 5, 50), (3, 7, 70)]
   \<and> Size (returned (Delete tree1357 (Some 1))) = 3"
proof -
  have l: "live tree1357 (Some 1)"
    by (simp add: live_def InOrder_tree1357)
  have a: "fld left (heap tree1357) (Some 1) = ok (Some 0)"
    by code_simp
  have b: "fld right (heap tree1357) (Some 1) = ok (Some 2)"
    by code_simp
  have c: "successor (heap tree1357) (Some 1) = ok (Some 2)"
    by code_simp
  have d: "InOrder (returned (Delete tree1357 (Some 1)))
      = Some [(0, 1, 10), (1, 5, 50), (3, 7, 70)]"
    by code_simp
  have e: "Size (returned (Delete tree1357 (Some 1))) = 3"
    by code_simp
  note th = delete_nil_and_two_children [of tree1357 1 0 2]
  from th have n: "Delete tree1357 None = ok tree1357" ..
  from th reachable_tree1357 l a b have "\<exists>y ny pre kz vz post s1 x xp s'.
          successor (heap tree1357) (Some 1) = ok (Some y) \<and> y \<noteq> 1
        \<and> heap tree1357 y = Some ny
        \<and> InOrder tree1357 = Some (pre @ (1, kz, vz) # (y, key ny, val ny) # post)
        \<and> Delete_unlink tree1357 (Some y) (Some 1) = ok (s1, x, xp)
        \<and> Delete tree1357 (Some 1)
            = bindR (if color ny then rbDeleteFixup s1 x xp else ok s1)
                (\<lambda>t. ok (t\<lparr>tsize := tsize t - 1\<rparr>))
        \<and> Delete tree1357 (Some 1) = ok s'
        \<and> InOrder s' = Some (pre @ (1, key ny, val ny) # post)
        \<and> live s' (Some 1) \<and> \<not> live s' (Some y)
        \<and> Size s' = Size tree1357 - 1"
    by (elim conjE impE) (intro conjI, assumption+)
  then show ?thesis
    using n reachable_tree1357 l a b c d e by (intro conjI)
qed

section \<open>Search\<close>

lemma find_app:
  "find P (xs @ ys) = (case find P xs of None \<Rightarrow> find P ys | Some x \<Rightarrow> Some x)"
  by (induction xs) auto

lemma find_None_all: "(find P xs = None) = (\<forall>x\<in>set xs. \<not> P x)"
  by (induction xs) auto

lemma find_Some_in: "find P xs = Some x \<Longrightarrow> x \<in> set xs \<and> P x"
  by (induction xs) (auto split: if_splits)

lemma ksorted_Nd:
  assumes "ksorted cmp (keys (Nd l a c k v r))"
  shows "ksorted cmp (keys l)" "ksorted cmp (keys r)"
    "\<forall>x\<in>set (keys l). cmp x k \<le> 0" "\<forall>x\<in>set (keys r). cmp k x \<le> 0"
  using assms by (auto simp: sorted_wrt_append)

lemma keys_of_nodes: "x \<in> set (nodes t) \<Longrightarrow> ekey x \<in> set (keys t)"
  by (auto simp: keys_nodes)

lemma findLowerBoundNode_repr:
  assumes "repr (heap s) par t" "valid_cmp (keyCmp s)" "ksorted (keyCmp s) (keys t)"
  shows "findLowerBoundNode s (rootp t) k
    = ok (map_option fst (find (\<lambda>x. keyCmp s k (ekey x) \<le> 0) (nodes t)))"
  using assms(1,3)
proof (induction t arbitrary: par)
  case Lf
  then show ?case by (subst findLowerBoundNode.simps) simp
next
  case (Nd l a c kx v r)
  let ?P = "\<lambda>x. keyCmp s k (ekey x) \<le> 0"
  have h: "heap s a = Some \<lparr>parent = par, left = rootp l, right = rootp r, color = c,
      key = kx, val = v\<rparr>"
    and rl: "repr (heap s) (Some a) l" and rr: "repr (heap s) (Some a) r"
    using Nd.prems(1) by simp_all
  note so = ksorted_Nd [OF Nd.prems(2)]
  have il: "findLowerBoundNode s (rootp l) k = ok (map_option fst (find ?P (nodes l)))"
    using Nd.IH(1) [OF rl so(1)] .
  have ir: "findLowerBoundNode s (rootp r) k = ok (map_option fst (find ?P (nodes r)))"
    using Nd.IH(2) [OF rr so(2)] .
  show ?case
  proof (cases "keyCmp s k kx \<le> 0")
    case True
    show ?thesis
    proof (cases "find ?P (nodes l)")
      case None
      then show ?thesis
        using True il by (subst findLowerBoundNode.simps) (simp add: h fld_Some find_app)
    next
      case (Some x)
      then have x: "x \<in> set (nodes l)"
        by (simp add: find_Some_in)
      obtain b kb vb where xb: "x = (b, kb, vb)" by (cases x)
      from repr_lookup [OF rl x [unfolded xb]] obtain n where
        n: "heap s b = Some n" "key n = kb" by blast
      have "keyCmp s kb kx \<le> 0"
        using so(3) keys_of_nodes [OF x] xb by auto
      then show ?thesis
        using True il Some xb n
        by (subst findLowerBoundNode.simps) (simp add: h fld_Some find_app)
    qed
  next
    case False
    have "\<not> ?P x" if "x \<in> set (nodes l)" for x
    proof
      assume "?P x"
      moreover have "keyCmp s (ekey x) kx \<le> 0"
        using so(3) keys_of_nodes [OF that] by auto
      ultimately have "keyCmp s k kx \<le> 0"
        by (rule cmp_le_trans [OF assms(2)])
      then show False using False by simp
    qed
    then have "find ?P (nodes l) = None"
      by (simp add: find_None_all)
    then show ?thesis
      using False ir by (subst findLowerBoundNode.simps) (simp add: h fld_Some find_app)
  qed
qed

lemma findUpperBoundNode_repr:
  assumes "repr (heap s) par t" "valid_cmp (keyCmp s)" "ksorted (keyCmp s) (keys t)"
  shows "findUpperBoundNode s (rootp t) k
    = ok (map_option fst (find (\<lambda>x. keyCmp s k (ekey x) < 0) (nodes t)))"
  using assms(1,3)
proof (induction t arbitrary: par)
  case Lf
  then show ?case by (subst findUpperBoundNode.simps) simp
next
  case (Nd l a c kx v r)
  let ?P = "\<lambda>x. keyCmp s k (ekey x) < 0"
  have h: "heap s a = Some \<lparr>parent = par, left = rootp l, right = rootp r, color = c,
      key = kx, val = v\<rparr>"
    and rl: "repr (heap s) (Some a) l" and rr: "repr (heap s) (Some a) r"
    using Nd.prems(1) by simp_all
  note so = ksorted_Nd [OF Nd.prems(2)]
  have il: "findUpperBoundNode s (rootp l) k = ok (map_option fst (find ?P (nodes l)))"
    using Nd.IH(1) [OF rl so(1)] .
  have ir: "findUpperBoundNode s (rootp r) k = ok (map_option fst (find ?P (nodes r)))"
    using Nd.IH(2) [OF rr so(2)] .
  show ?case
  proof (cases "keyCmp s k kx < 0")
    case True
    show ?thesis
    proof (cases "find ?P (nodes l)")
      case None
      then show ?thesis
        using True il by (subst findUpperBoundNode.simps) (simp add: h fld_Some find_app)
    next
      case (Some x)
      then have x: "x \<in> set (nodes l)"
        by (simp add: find_Some_in)
      obtain b kb vb where xb: "x = (b, kb, vb)" by (cases x)
      from repr_lookup [OF rl x [unfolded xb]] obtain n where
        n: "heap s b = Some n" "key n = kb" by blast
      have "keyCmp s kb kx \<le> 0"
        using so(3) keys_of_nodes [OF x] xb by auto
      then show ?thesis
        using True il Some xb n
        by (subst findUpperBoundNode.simps) (simp add: h fld_Some find_app)
    qed
  next
    case False
    have "\<not> ?P x" if "x \<in> set (nodes l)" for x
    proof
      assume "?P x"
      moreover have "keyCmp s (ekey x) kx \<le> 0"
        using so(3) keys_of_nodes [OF that] by auto
      ultimately have "keyCmp s k kx < 0"
        by (rule cmp_lt_le_trans [OF assms(2)])
      then show False using False by simp
    qed
    then have "find ?P (nodes l) = None"
      by (simp add: find_None_all)
    then show ?thesis
      using False ir by (subst findUpperBoundNode.simps) (simp add: h fld_Some find_app)
  qed
qed

lemma Inv_root: "Inv s t \<Longrightarrow> root s = rootp t \<and> repr (heap s) None t"
  by (simp add: Inv_def zr_def zrep_def)

lemma FindLowerBoundNode_Inv:
  assumes "Inv s t"
  shows "FindLowerBoundNode s k
    = ok (map_option fst (find (\<lambda>x. keyCmp s k (ekey x) \<le> 0) (nodes t)))"
proof -
  have "repr (heap s) None t" "root s = rootp t"
    using Inv_root [OF assms] by simp_all
  moreover have "valid_cmp (keyCmp s)" "ksorted (keyCmp s) (keys t)"
    using assms by (simp_all add: Inv_def)
  ultimately show ?thesis
    using findLowerBoundNode_repr [of s None t k] by (simp add: FindLowerBoundNode_def)
qed

lemma FindUpperBoundNode_Inv:
  assumes "Inv s t"
  shows "FindUpperBoundNode s k
    = ok (map_option fst (find (\<lambda>x. keyCmp s k (ekey x) < 0) (nodes t)))"
proof -
  have "repr (heap s) None t" "root s = rootp t"
    using Inv_root [OF assms] by simp_all
  moreover have "valid_cmp (keyCmp s)" "ksorted (keyCmp s) (keys t)"
    using assms by (simp_all add: Inv_def)
  ultimately show ?thesis
    using findUpperBoundNode_repr [of s None t k] by (simp add: FindUpperBoundNode_def)
qed

subsection \<open>Exact match\<close>

lemma find_equal_sorted:
  assumes "valid_cmp cmp" "sorted_wrt (\<lambda>x y. cmp (ekey x) (ekey y) \<le> 0) xs"
  shows "(case find (\<lambda>x. cmp k (ekey x) \<le> 0) xs of None \<Rightarrow> None
      | Some x \<Rightarrow> if cmp (ekey x) k = 0 then Some x else None)
    = find (\<lambda>x. cmp (ekey x) k = 0) xs"
  using assms(2)
proof (induction xs)
  case Nil
  then show ?case by simp
next
  case (Cons x xs)
  show ?case
  proof (cases "cmp k (ekey x) \<le> 0")
    case True
    show ?thesis
    proof (cases "cmp (ekey x) k = 0")
      case True
      then show ?thesis using \<open>cmp k (ekey x) \<le> 0\<close> by simp
    next
      case False
      have ge: "cmp (ekey x) k \<ge> 0"
        using True by (rule cmp_flip [OF assms(1), THEN iffD1])
      have "cmp (ekey y) k \<noteq> 0" if "y \<in> set xs" for y
      proof
        assume e: "cmp (ekey y) k = 0"
        have "cmp (ekey x) (ekey y) \<le> 0"
          using Cons.prems that by simp
        moreover have "cmp (ekey y) k \<le> 0"
          using e by simp
        ultimately have "cmp (ekey x) k \<le> 0"
          by (rule cmp_le_trans [OF assms(1)])
        then show False using ge False by linarith
      qed
      then have "find (\<lambda>x. cmp (ekey x) k = 0) xs = None"
        by (simp add: find_None_all)
      then show ?thesis using True False by simp
    qed
  next
    case False
    then have "cmp k (ekey x) > 0" by linarith
    then have "cmp (ekey x) k < 0"
      by (rule cmp_flip_lt [OF assms(1), THEN iffD2])
    then have "cmp (ekey x) k \<noteq> 0" by linarith
    then show ?thesis
      using False Cons.IH Cons.prems by simp
  qed
qed

lemma Inv_sorted:
  assumes "Inv s t"
  shows "sorted_wrt (\<lambda>x y. keyCmp s (ekey x) (ekey y) \<le> 0) (nodes t)"
proof -
  have "ksorted (keyCmp s) (map ekey (nodes t))"
    using assms by (simp add: Inv_def keys_nodes)
  then show ?thesis
    by (simp add: sorted_wrt_map)
qed

lemma Inv_lookup:
  assumes "Inv s t" "(a, k, v) \<in> set (nodes t)"
  shows "fld key (heap s) (Some a) = ok k" "fld val (heap s) (Some a) = ok v"
proof -
  have "repr (heap s) None t"
    using Inv_root [OF assms(1)] by simp
  from repr_lookup [OF this assms(2)] show
    "fld key (heap s) (Some a) = ok k" "fld val (heap s) (Some a) = ok v"
    by (auto simp: fld_Some)
qed

lemma findFirstNode_Inv:
  assumes "Inv s t"
  shows "findFirstNode s k
    = ok (map_option fst (find (\<lambda>x. keyCmp s (ekey x) k = 0) (nodes t)))"
proof -
  let ?P = "\<lambda>x. keyCmp s k (ekey x) \<le> 0"
  have vc: "valid_cmp (keyCmp s)"
    using assms by (simp add: Inv_def)
  note eq = find_equal_sorted [OF vc Inv_sorted [OF assms], of k, symmetric]
  note lb = FindLowerBoundNode_Inv [OF assms, of k]
  show ?thesis
  proof (cases "find ?P (nodes t)")
    case None
    then show ?thesis
      using lb eq by (simp add: findFirstNode_def)
  next
    case (Some x)
    obtain a k' v where x: "x = (a, k', v)" by (cases x)
    have "(a, k', v) \<in> set (nodes t)"
      using find_Some_in [OF Some] x by simp
    from Inv_lookup(1) [OF assms this] show ?thesis
      using lb eq Some x by (simp add: findFirstNode_def)
  qed
qed

lemma Find_Inv:
  assumes "Inv s t"
  shows "Find zero s k = (case find (\<lambda>x. keyCmp s (ekey x) k = 0) (nodes t) of
      None \<Rightarrow> ok (zero, Some ErrorNotFound) | Some x \<Rightarrow> ok (snd (snd x), None))"
proof (cases "find (\<lambda>x. keyCmp s (ekey x) k = 0) (nodes t)")
  case None
  then show ?thesis
    using findFirstNode_Inv [OF assms, of k] by (simp add: Find_def)
next
  case (Some x)
  obtain a k' v where x: "x = (a, k', v)" by (cases x)
  have "(a, k', v) \<in> set (nodes t)"
    using find_Some_in [OF Some] x by simp
  from Inv_lookup(2) [OF assms this] show ?thesis
    using findFirstNode_Inv [OF assms, of k] Some x by (simp add: Find_def)
qed

section \<open>The bounds and \<open>Find\<close> on built trees\<close>

text \<open>
  C5. On a built tree, \<open>FindLowerBoundNode\<close> returns the first node of the in-order
  sequence whose key is not less than the query key \<open>k\<close> (the comparator gives
  \<open>keyCmp k key' \<le> 0\<close>), and nil when the sequence has no such node.
\<close>

theorem lower_bound_is_first_not_less:
  assumes "reachable s"
  shows "\<exists>xs. InOrder s = Some xs
    \<and> FindLowerBoundNode s k = ok (map_option fst (find (\<lambda>x. keyCmp s k (ekey x) \<le> 0) xs))"
proof -
  from reachable_Inv [OF assms] obtain t where t: "Inv s t" by blast
  from Inv_InOrder [OF t] FindLowerBoundNode_Inv [OF t, of k] show ?thesis by simp
qed

theorem lower_bound_is_first_not_less_witness:
  "InOrder tree1357 = Some [(0, 1, 10), (1, 3, 30), (2, 5, 50), (3, 7, 70)]
   \<and> FindLowerBoundNode tree1357 2 = ok (Some 1)
   \<and> FindLowerBoundNode tree1357 5 = ok (Some 2)
   \<and> FindLowerBoundNode tree1357 8 = ok None"
proof -
  let ?xs = "[(0, 1, 10), (1, 3, 30), (2, 5, 50), (3, 7, 70)] :: (addr \<times> int \<times> int) list"
  have lb: "FindLowerBoundNode tree1357 k
      = ok (map_option fst (find (\<lambda>x. keyCmp tree1357 k (ekey x) \<le> 0) ?xs))" for k
    using lower_bound_is_first_not_less [OF reachable_tree1357, of k]
    by (simp add: InOrder_tree1357)
  have "map_option fst (find (\<lambda>x. keyCmp tree1357 2 (ekey x) \<le> 0) ?xs) = Some 1"
    "map_option fst (find (\<lambda>x. keyCmp tree1357 5 (ekey x) \<le> 0) ?xs) = Some 2"
    "map_option fst (find (\<lambda>x. keyCmp tree1357 8 (ekey x) \<le> 0) ?xs) = None"
    by code_simp+
  then show ?thesis
    using lb InOrder_tree1357 by simp
qed

text \<open>
  C6. On a built tree, \<open>FindUpperBoundNode\<close> returns the first node of the in-order
  sequence whose key is greater than the query key \<open>k\<close> (the comparator gives
  \<open>keyCmp k key' < 0\<close>), and nil when the sequence has no such node.
\<close>

theorem upper_bound_is_first_greater:
  assumes "reachable s"
  shows "\<exists>xs. InOrder s = Some xs
    \<and> FindUpperBoundNode s k = ok (map_option fst (find (\<lambda>x. keyCmp s k (ekey x) < 0) xs))"
proof -
  from reachable_Inv [OF assms] obtain t where t: "Inv s t" by blast
  from Inv_InOrder [OF t] FindUpperBoundNode_Inv [OF t, of k] show ?thesis by simp
qed

theorem upper_bound_is_first_greater_witness:
  "InOrder tree1357 = Some [(0, 1, 10), (1, 3, 30), (2, 5, 50), (3, 7, 70)]
   \<and> FindUpperBoundNode tree1357 1 = ok (Some 1)
   \<and> FindUpperBoundNode tree1357 7 = ok None"
proof -
  let ?xs = "[(0, 1, 10), (1, 3, 30), (2, 5, 50), (3, 7, 70)] :: (addr \<times> int \<times> int) list"
  have ub: "FindUpperBoundNode tree1357 k
      = ok (map_option fst (find (\<lambda>x. keyCmp tree1357 k (ekey x) < 0) ?xs))" for k
    using upper_bound_is_first_greater [OF reachable_tree1357, of k]
    by (simp add: InOrder_tree1357)
  have "map_option fst (find (\<lambda>x. keyCmp tree1357 1 (ekey x) < 0) ?xs) = Some 1"
    "map_option fst (find (\<lambda>x. keyCmp tree1357 7 (ekey x) < 0) ?xs) = None"
    by code_simp+
  then show ?thesis
    using ub InOrder_tree1357 by simp
qed

text \<open>
  C7. On a built tree \<open>Find\<close> always returns. When the lower bound of the key is nil, or
  is a node whose key does not compare equal to the query key, the result is the zero value
  with the error \<open>ErrorNotFound\<close>; when the lower bound is a node with an equal key, the
  result is the value of that node with the error nil. So \<open>Find\<close> returns the value of
  the first entry with an equal key, and not-found when no entry has an equal key.
\<close>

theorem find_by_lower_bound:
  assumes "reachable s"
  shows "\<exists>xs. InOrder s = Some xs
    \<and> (case find (\<lambda>x. keyCmp s k (ekey x) \<le> 0) xs of
         None \<Rightarrow> FindLowerBoundNode s k = ok None
           \<and> Find zero s k = ok (zero, Some ErrorNotFound)
       | Some x \<Rightarrow> FindLowerBoundNode s k = ok (Some (fst x))
           \<and> Node_Key (heap s) (Some (fst x)) = ok (ekey x)
           \<and> Node_Value (heap s) (Some (fst x)) = ok (snd (snd x))
           \<and> Find zero s k = (if keyCmp s (ekey x) k = 0 then ok (snd (snd x), None)
                else ok (zero, Some ErrorNotFound)))
    \<and> Find zero s k = (case find (\<lambda>x. keyCmp s (ekey x) k = 0) xs of
         None \<Rightarrow> ok (zero, Some ErrorNotFound) | Some x \<Rightarrow> ok (snd (snd x), None))"
proof -
  from reachable_Inv [OF assms] obtain t where t: "Inv s t" by blast
  let ?P = "\<lambda>x. keyCmp s k (ekey x) \<le> 0"
  have vc: "valid_cmp (keyCmp s)"
    using t by (simp add: Inv_def)
  note eq = find_equal_sorted [OF vc Inv_sorted [OF t], of k, symmetric]
  note lb = FindLowerBoundNode_Inv [OF t, of k]
  note fi = Find_Inv [OF t, of zero k]
  have "case find ?P (nodes t) of
         None \<Rightarrow> FindLowerBoundNode s k = ok None
           \<and> Find zero s k = ok (zero, Some ErrorNotFound)
       | Some x \<Rightarrow> FindLowerBoundNode s k = ok (Some (fst x))
           \<and> Node_Key (heap s) (Some (fst x)) = ok (ekey x)
           \<and> Node_Value (heap s) (Some (fst x)) = ok (snd (snd x))
           \<and> Find zero s k = (if keyCmp s (ekey x) k = 0 then ok (snd (snd x), None)
                else ok (zero, Some ErrorNotFound))"
  proof (cases "find ?P (nodes t)")
    case None
    then show ?thesis
      using lb fi eq by simp
  next
    case (Some x)
    obtain a k' v where x: "x = (a, k', v)" by (cases x)
    have "(a, k', v) \<in> set (nodes t)"
      using find_Some_in [OF Some] x by simp
    from Inv_lookup [OF t this] show ?thesis
      using lb fi eq Some x by (simp add: Node_Key_def Node_Value_def)
  qed
  with Inv_InOrder [OF t] fi show ?thesis by simp
qed

theorem find_by_lower_bound_witness:
  "InOrder tree1357 = Some [(0, 1, 10), (1, 3, 30), (2, 5, 50), (3, 7, 70)]
   \<and> FindLowerBoundNode tree1357 5 = ok (Some 2) \<and> Find 0 tree1357 5 = ok (50, None)
   \<and> FindLowerBoundNode tree1357 4 = ok (Some 2) \<and> Find 0 tree1357 4 = ok (0, Some ErrorNotFound)
   \<and> FindLowerBoundNode tree1357 8 = ok None \<and> Find 0 tree1357 8 = ok (0, Some ErrorNotFound)"
proof -
  let ?xs = "[(0, 1, 10), (1, 3, 30), (2, 5, 50), (3, 7, 70)] :: (addr \<times> int \<times> int) list"
  have th: "(case find (\<lambda>x. keyCmp tree1357 k (ekey x) \<le> 0) ?xs of
         None \<Rightarrow> FindLowerBoundNode tree1357 k = ok None
           \<and> Find 0 tree1357 k = ok (0, Some ErrorNotFound)
       | Some x \<Rightarrow> FindLowerBoundNode tree1357 k = ok (Some (fst x))
           \<and> Node_Key (heap tree1357) (Some (fst x)) = ok (ekey x)
           \<and> Node_Value (heap tree1357) (Some (fst x)) = ok (snd (snd x))
           \<and> Find 0 tree1357 k = (if keyCmp tree1357 (ekey x) k = 0 then ok (snd (snd x), None)
                else ok (0, Some ErrorNotFound)))" for k
    using find_by_lower_bound [OF reachable_tree1357, of k 0]
    by (simp add: InOrder_tree1357)
  have f: "find (\<lambda>x. keyCmp tree1357 5 (ekey x) \<le> 0) ?xs = Some (2, 5, 50)"
    "find (\<lambda>x. keyCmp tree1357 4 (ekey x) \<le> 0) ?xs = Some (2, 5, 50)"
    "find (\<lambda>x. keyCmp tree1357 8 (ekey x) \<le> 0) ?xs = None"
    by code_simp+
  have c: "keyCmp tree1357 5 5 = 0" "keyCmp tree1357 5 4 \<noteq> 0"
    by code_simp+
  note a = th [of 5, unfolded f(1)] th [of 4, unfolded f(2)] th [of 8, unfolded f(3)]
  from a show ?thesis
    by (simp add: c InOrder_tree1357)
qed

section \<open>Walking along the in-order sequence\<close>

lemma distinct_split_unique:
  assumes "distinct (xs @ a # ys)" "xs @ a # ys = xs' @ a # ys'"
  shows "xs = xs' \<and> ys = ys'"
  using assms
proof (induction xs arbitrary: xs')
  case Nil
  then show ?case by (cases xs') auto
next
  case (Cons x xs)
  show ?case
  proof (cases xs')
    case Nil
    then show ?thesis using Cons.prems by auto
  next
    case c: (Cons x' zs)
    have d: "distinct (xs @ a # ys)"
      using Cons.prems(1) by simp
    have e: "x = x'" "xs @ a # ys = zs @ a # ys'"
      using Cons.prems(2) c by simp_all
    from Cons.IH [OF d e(2)] e(1) c show ?thesis by simp
  qed
qed

lemma Inv_split:
  assumes "Inv s t" "nodes t = pre @ x # post"
  shows "\<exists>C l c k v r. zr s C (Nd l (fst x) c k v r)
    \<and> map fst pre = cbefa C @ addrs l \<and> map fst post = addrs r @ cafta C"
proof -
  have ad: "addrs t = map fst pre @ fst x # map fst post"
    using assms(2) by (simp add: addrs_nodes)
  then have "fst x \<in> set (addrs t)"
    by simp
  from zipper_ex [OF this] obtain C l c k v r where t: "t = plug C (Nd l (fst x) c k v r)"
    by blast
  have "zr s Top t"
    using assms(1) by (simp add: Inv_def)
  then have z: "zr s C (Nd l (fst x) c k v r)"
    using zr_plug [of s C "Nd l (fst x) c k v r"] t by simp
  have "distinct (addrs t)"
    using Inv_distinct [OF assms(1)] by (simp add: addrs_nodes)
  moreover have "addrs t = (cbefa C @ addrs l) @ fst x # (addrs r @ cafta C)"
    by (simp add: t inord_plug)
  ultimately have "map fst pre = cbefa C @ addrs l \<and> map fst post = addrs r @ cafta C"
    using distinct_split_unique [of "map fst pre" "fst x" "map fst post"
        "cbefa C @ addrs l" "addrs r @ cafta C"] ad
    by simp
  with z show ?thesis by blast
qed

lemma successor_Inv:
  assumes "Inv s t" "nodes t = pre @ x # post"
  shows "successor (heap s) (Some (fst x)) = ok (hdo (map fst post))"
proof -
  from Inv_split [OF assms] obtain C l c k v r where
    "zr s C (Nd l (fst x) c k v r)" "map fst post = addrs r @ cafta C"
    by blast
  then show ?thesis
    by (simp add: successor_zr)
qed

lemma presuccessor_Inv:
  assumes "Inv s t" "nodes t = pre @ x # post"
  shows "presuccessor (heap s) (Some (fst x)) = ok (lasto (map fst pre))"
proof -
  from Inv_split [OF assms] obtain C l c k v r where
    "zr s C (Nd l (fst x) c k v r)" "map fst pre = cbefa C @ addrs l"
    by blast
  then show ?thesis
    by (simp add: presuccessor_zr)
qed

lemma First_Inv:
  assumes "Inv s t"
  shows "First s = ok (hdo (map fst (nodes t)))"
proof (cases "t = Lf")
  case True
  then show ?thesis
    using Inv_root [OF assms] by (simp add: First_def)
next
  case False
  have "root s = rootp t" "repr (heap s) None t"
    using Inv_root [OF assms] by simp_all
  moreover have "rootp t \<noteq> None"
    using False by (cases t) auto
  ultimately show ?thesis
    using minimum_repr [of "heap s" None t] False
    by (simp add: First_def hdo_hd addrs_nodes [symmetric])
qed

lemma Last_Inv:
  assumes "Inv s t"
  shows "Last s = ok (lasto (map fst (nodes t)))"
proof (cases "t = Lf")
  case True
  then show ?thesis
    using Inv_root [OF assms] by (simp add: Last_def)
next
  case False
  have "root s = rootp t" "repr (heap s) None t"
    using Inv_root [OF assms] by simp_all
  moreover have "rootp t \<noteq> None"
    using False by (cases t) auto
  ultimately show ?thesis
    using maximum_repr [of "heap s" None t] False
    by (simp add: Last_def lasto_def addrs_nodes [symmetric])
qed

subsection \<open>Traversal\<close>

text \<open>
  What a traversal is to do with a visitor, in the words of the specification: call it on
  the entries in order, each call on the state the call before left, and stop after the
  first call that returns false.
\<close>

fun visit_in_order :: "('k \<Rightarrow> 'v \<Rightarrow> 'a \<Rightarrow> bool \<times> 'a) \<Rightarrow> ('k \<times> 'v) list \<Rightarrow> 'a \<Rightarrow> 'a" where
  "visit_in_order f [] acc = acc"
| "visit_in_order f ((k, v) # es) acc =
     (if fst (f k v acc) then visit_in_order f es (snd (f k v acc)) else snd (f k v acc))"

lemma Traversal_loop_Inv:
  assumes "Inv s t" "nodes t = pre @ x # post"
  shows "Traversal_loop (heap s) f (Some (fst x)) acc
    = ok (visit_in_order f (map snd (x # post)) acc)"
  using assms(2)
proof (induction post arbitrary: pre x acc)
  case Nil
  obtain a k v where x: "x = (a, k, v)" by (cases x)
  have "(a, k, v) \<in> set (nodes t)"
    using Nil x by simp
  note lk = Inv_lookup [OF assms(1) this]
  have su: "successor (heap s) (Some a) = ok None"
    using successor_Inv [OF assms(1) Nil] x by simp
  have e: "Traversal_loop (heap s) f None acc' = ok acc'" for acc'
    by (subst Traversal_loop.simps) simp
  show ?case
    by (subst Traversal_loop.simps) (simp add: x lk su e Node_Next_def)
next
  case (Cons y post)
  obtain a k v where x: "x = (a, k, v)" by (cases x)
  have "(a, k, v) \<in> set (nodes t)"
    using Cons.prems x by simp
  note lk = Inv_lookup [OF assms(1) this]
  have su: "successor (heap s) (Some a) = ok (Some (fst y))"
    using successor_Inv [OF assms(1) Cons.prems] x by simp
  have "nodes t = (pre @ [x]) @ y # post"
    using Cons.prems by simp
  note ih = Cons.IH [OF this]
  show ?case
    by (subst Traversal_loop.simps) (simp add: x lk su ih Node_Next_def)
qed

lemma Traversal_Inv:
  assumes "Inv s t"
  shows "Traversal s f acc = ok (visit_in_order f (map snd (nodes t)) acc)"
proof (cases "nodes t")
  case Nil
  have "Traversal_loop (heap s) f None acc = ok acc"
    by (subst Traversal_loop.simps) simp
  then show ?thesis
    using First_Inv [OF assms] Nil by (simp add: Traversal_def)
next
  case (Cons x post)
  then have "nodes t = [] @ x # post" by simp
  from Traversal_loop_Inv [OF assms this, of f acc] show ?thesis
    using First_Inv [OF assms] Cons by (simp add: Traversal_def)
qed

lemma visit_in_order_log:
  "visit_in_order (\<lambda>k v log. (p k v, log @ [(k, v)])) es log
    = log @ takeWhile (\<lambda>(k, v). p k v) es @ take 1 (dropWhile (\<lambda>(k, v). p k v) es)"
proof (induction es arbitrary: log)
  case Nil
  then show ?case by simp
next
  case (Cons e es)
  obtain k v where e: "e = (k, v)" by (cases e)
  show ?case
    using Cons.IH [of "log @ [(k, v)]"] by (simp add: e)
qed

subsection \<open>Cursors\<close>

text \<open>\<open>repeat_call n f x\<close> is \<open>n\<close> calls of \<open>f\<close> in a row, starting from \<open>x\<close>.\<close>

fun repeat_call :: "nat \<Rightarrow> ('a \<Rightarrow> 'a res) \<Rightarrow> 'a \<Rightarrow> 'a res" where
  "repeat_call 0 f x = ok x"
| "repeat_call (Suc n) f x = bindR (f x) (repeat_call n f)"

lemma Next_Inv:
  assumes "Inv s t" "nodes t = pre @ x # post"
  shows "Next (heap s) (NewIterator (Some (fst x))) = ok (NewIterator (hdo (map fst post)))"
  using successor_Inv [OF assms]
  by (simp add: Next_def IsValid_def NewIterator_def Node_Next_def)

lemma Prev_Inv:
  assumes "Inv s t" "nodes t = pre @ x # post"
  shows "Prev (heap s) (NewIterator (Some (fst x))) = ok (NewIterator (lasto (map fst pre)))"
  using presuccessor_Inv [OF assms]
  by (simp add: Prev_def IsValid_def NewIterator_def Node_Prev_def)

lemma repeat_Next_Inv:
  assumes "Inv s t" "nodes t = pre @ x # post"
  shows "repeat_call (length post) (Next (heap s)) (NewIterator (Some (fst x)))
    = ok (NewIterator (Some (fst (last (x # post)))))"
  using assms(2)
proof (induction post arbitrary: pre x)
  case Nil
  then show ?case by simp
next
  case (Cons y post)
  have "nodes t = (pre @ [x]) @ y # post"
    using Cons.prems by simp
  note ih = Cons.IH [OF this]
  show ?case
    using Next_Inv [OF assms(1) Cons.prems] ih by simp
qed

lemma repeat_Prev_Inv:
  assumes "Inv s t" "nodes t = pre @ x # post"
  shows "repeat_call (length pre) (Prev (heap s)) (NewIterator (Some (fst x)))
    = ok (NewIterator (Some (fst (hd (pre @ [x])))))"
  using assms(2)
proof (induction pre arbitrary: x post rule: rev_induct)
  case Nil
  then show ?case by simp
next
  case (snoc y pre)
  have n: "nodes t = pre @ y # (x # post)"
    using snoc.prems by simp
  note ih = snoc.IH [OF this]
  have "hd ((pre @ [y]) @ [x]) = hd (pre @ [y])"
    by (cases pre) auto
  then show ?case
    using Prev_Inv [OF assms(1) snoc.prems] ih by simp
qed

section \<open>Traversal in key order\<close>

lemma Inv_size: "Inv s t \<Longrightarrow> Size s = int (length (nodes t))"
  using arg_cong [OF addrs_nodes [of t], of length] by (simp add: Inv_def Size_def)

text \<open>
  C2. \<open>Delete\<close> does not check its handle, and a handle that has left the tree can put
  the entries out of order; the run after the witness shows it. On every tree built from
  \<open>New\<close> with a valid comparator by calls of \<open>Insert\<close> and of \<open>Delete\<close> on handles
  that are nil or live, the in-order sequence of the entries is sorted: the comparator is
  not positive on any entry and a later one. \<open>Traversal\<close> returns, and has called the
  visitor on the entries in this order, each call on the state the call before left, up to
  and including the first entry for which the visitor returned false, and on all entries
  when there is none. For the visitor that writes each entry it sees to a log and returns
  what \<open>p\<close> says, the log is the entries on which \<open>p\<close> holds up to the first on which
  it does not, followed by that one. \<open>First\<close> is the first node of the sequence and the
  successor of each node is the next node of the sequence, nil for the last.
\<close>

theorem traversal_in_key_order:
  assumes "reachable s"
  shows "\<exists>xs. InOrder s = Some xs
    \<and> sorted_wrt (\<lambda>x y. keyCmp s (ekey x) (ekey y) \<le> 0) xs
    \<and> Traversal s visitor acc = ok (visit_in_order visitor (map snd xs) acc)
    \<and> Traversal s (\<lambda>k v log. (p k v, log @ [(k, v)])) []
        = ok (takeWhile (\<lambda>(k, v). p k v) (map snd xs)
              @ take 1 (dropWhile (\<lambda>(k, v). p k v) (map snd xs)))
    \<and> First s = ok (hdo (map fst xs))
    \<and> (\<forall>pre x post. xs = pre @ x # post \<longrightarrow>
          successor (heap s) (Some (fst x)) = ok (hdo (map fst post)))"
proof -
  from reachable_Inv [OF assms] obtain t where t: "Inv s t" by blast
  have a: "InOrder s = Some (nodes t)"
    by (rule Inv_InOrder [OF t])
  have b: "sorted_wrt (\<lambda>x y. keyCmp s (ekey x) (ekey y) \<le> 0) (nodes t)"
    by (rule Inv_sorted [OF t])
  have c: "Traversal s visitor acc = ok (visit_in_order visitor (map snd (nodes t)) acc)"
    by (rule Traversal_Inv [OF t])
  have d: "Traversal s (\<lambda>k v log. (p k v, log @ [(k, v)])) []
        = ok (takeWhile (\<lambda>(k, v). p k v) (map snd (nodes t))
              @ take 1 (dropWhile (\<lambda>(k, v). p k v) (map snd (nodes t))))"
    using Traversal_Inv [OF t, of "\<lambda>k v log. (p k v, log @ [(k, v)])" "[]"]
      visit_in_order_log [of p "map snd (nodes t)" "[]"]
    by simp
  have e: "First s = ok (hdo (map fst (nodes t)))"
    by (rule First_Inv [OF t])
  have f: "\<forall>pre x post. nodes t = pre @ x # post \<longrightarrow>
          successor (heap s) (Some (fst x)) = ok (hdo (map fst post))"
    using successor_Inv [OF t] by blast
  show ?thesis
    apply (rule exI [of _ "nodes t"])
    using a b c d e f apply (intro conjI)
         apply assumption+
    done
qed

theorem traversal_in_key_order_witness:
  "InOrder tree1357 = Some [(0, 1, 10), (1, 3, 30), (2, 5, 50), (3, 7, 70)]
   \<and> Traversal tree1357 (\<lambda>k v log. (True, log @ [(k, v)])) []
       = ok [(1, 10), (3, 30), (5, 50), (7, 70)]
   \<and> Traversal tree1357 (\<lambda>k v log. (k < 5, log @ [(k, v)])) []
       = ok [(1, 10), (3, 30), (5, 50)]
   \<and> First tree1357 = ok (Some 0)
   \<and> successor (heap tree1357) (Some 0) = ok (Some 1)
   \<and> successor (heap tree1357) (Some 1) = ok (Some 2)
   \<and> successor (heap tree1357) (Some 2) = ok (Some 3)
   \<and> successor (heap tree1357) (Some 3) = ok None"
proof -
  let ?xs = "[(0, 1, 10), (1, 3, 30), (2, 5, 50), (3, 7, 70)] :: (addr \<times> int \<times> int) list"
  have th: "Traversal tree1357 (\<lambda>k v log. (p k v, log @ [(k, v)])) []
        = ok (takeWhile (\<lambda>(k, v). p k v) (map snd ?xs)
              @ take 1 (dropWhile (\<lambda>(k, v). p k v) (map snd ?xs)))
    \<and> First tree1357 = ok (hdo (map fst ?xs))
    \<and> (\<forall>pre x post. ?xs = pre @ x # post \<longrightarrow>
          successor (heap tree1357) (Some (fst x)) = ok (hdo (map fst post)))" for p
    using traversal_in_key_order [OF reachable_tree1357, of "\<lambda>k v a. (True, a)" "()" p]
    by (simp add: InOrder_tree1357)
  from th [of "\<lambda>k v. True"] have su: "?xs = pre @ x # post \<Longrightarrow>
          successor (heap tree1357) (Some (fst x)) = ok (hdo (map fst post))" for pre x post
    by blast
  have s0: "successor (heap tree1357) (Some 0) = ok (Some 1)"
    using su [of "[]" "(0, 1, 10)" "[(1, 3, 30), (2, 5, 50), (3, 7, 70)]"] by simp
  have s1: "successor (heap tree1357) (Some 1) = ok (Some 2)"
    using su [of "[(0, 1, 10)]" "(1, 3, 30)" "[(2, 5, 50), (3, 7, 70)]"] by simp
  have s2: "successor (heap tree1357) (Some 2) = ok (Some 3)"
    using su [of "[(0, 1, 10), (1, 3, 30)]" "(2, 5, 50)" "[(3, 7, 70)]"] by simp
  have s3: "successor (heap tree1357) (Some 3) = ok None"
    using su [of "[(0, 1, 10), (1, 3, 30), (2, 5, 50)]" "(3, 7, 70)" "[]"] by simp
  from th [of "\<lambda>k v. True"] th [of "\<lambda>k v. k < 5"] s0 s1 s2 s3 show ?thesis
    by (simp add: InOrder_tree1357)
qed

text \<open>
  A run in which \<open>Delete\<close> gets a handle that has left the tree, after which the
  traversal is out of order. \<open>h0\<close> is the node of key 1 and is deleted while key 3 is in
  the tree; key 4 comes in, the node of key 3 is deleted, key 2 comes in. \<open>Delete\<close> on
  \<open>h0\<close> once more makes the old node of key 3 the root, and the traversal calls the
  visitor on the keys 3, 2 and 4.
\<close>

definition stale_handle_traversal :: "int list res" where
  "stale_handle_traversal =
     bindR (Insert (New int_cmp) 1 (10 :: int)) (\<lambda>s.
     bindR (FindNode s 1) (\<lambda>h0.
     bindR (Insert s 3 30) (\<lambda>s.
     bindR (Delete s h0) (\<lambda>s.
     bindR (Insert s 4 40) (\<lambda>s.
     bindR (FindNode s 3) (\<lambda>h1.
     bindR (Delete s h1) (\<lambda>s.
     bindR (Insert s 2 20) (\<lambda>s.
     bindR (Delete s h0) (\<lambda>s.
     Traversal s (\<lambda>k v log. (True, log @ [k])) [])))))))))"

theorem stale_handle_traversal_out_of_order:
  "stale_handle_traversal = ok [3, 2, 4]"
  by code_simp

section \<open>Forward and back with a cursor\<close>

text \<open>
  C9. On a built tree that is not empty, with \<open>N\<close> the number of its entries (which is
  \<open>Size\<close>): \<open>IterFirst\<close> returns the cursor at the first node of the in-order sequence;
  \<open>N - 1\<close> calls of \<open>Next\<close> take it to the last node, and \<open>N - 1\<close> calls of \<open>Prev\<close>
  from there take it back to the first node, whose key is the first key and is not
  greater than any key of the tree. For two neighbours of the sequence, the successor of
  the first is the second and the predecessor of the second is the first.
\<close>

theorem next_then_prev_returns_to_first:
  assumes "reachable s" "InOrder s = Some xs" "xs \<noteq> []"
  shows "IterFirst s = ok (NewIterator (Some (fst (hd xs))))
    \<and> repeat_call (length xs - 1) (Next (heap s)) (NewIterator (Some (fst (hd xs))))
        = ok (NewIterator (Some (fst (last xs))))
    \<and> repeat_call (length xs - 1) (Prev (heap s)) (NewIterator (Some (fst (last xs))))
        = ok (NewIterator (Some (fst (hd xs))))
    \<and> Key (heap s) (NewIterator (Some (fst (hd xs)))) = ok (ekey (hd xs))
    \<and> (\<forall>x\<in>set xs. keyCmp s (ekey (hd xs)) (ekey x) \<le> 0)
    \<and> Size s = int (length xs)
    \<and> (\<forall>pre x y post. xs = pre @ x # y # post \<longrightarrow>
          successor (heap s) (Some (fst x)) = ok (Some (fst y))
          \<and> presuccessor (heap s) (Some (fst y)) = ok (Some (fst x)))"
proof -
  from reachable_Inv [OF assms(1)] obtain t where t: "Inv s t" by blast
  have xs: "nodes t = xs"
    using Inv_InOrder [OF t] assms(2) by simp
  obtain x post where c: "xs = x # post"
    using assms(3) by (cases xs) auto
  obtain pre y where r: "xs = pre @ [y]"
    using assms(3) by (cases xs rule: rev_cases) auto
  have a1: "IterFirst s = ok (NewIterator (Some (fst (hd xs))))"
    using First_Inv [OF t] c by (simp add: IterFirst_def xs)
  have "nodes t = [] @ x # post"
    using xs c by simp
  from repeat_Next_Inv [OF t this] have a2:
    "repeat_call (length xs - 1) (Next (heap s)) (NewIterator (Some (fst (hd xs))))
        = ok (NewIterator (Some (fst (last xs))))"
    by (simp add: c)
  have "nodes t = pre @ y # []"
    using xs r by simp
  from repeat_Prev_Inv [OF t this] have a3:
    "repeat_call (length xs - 1) (Prev (heap s)) (NewIterator (Some (fst (last xs))))
        = ok (NewIterator (Some (fst (hd xs))))"
    by (simp add: r)
  obtain a k v where x: "x = (a, k, v)" by (cases x)
  have "(a, k, v) \<in> set (nodes t)"
    using xs c x by simp
  from Inv_lookup(1) [OF t this] have a4:
    "Key (heap s) (NewIterator (Some (fst (hd xs)))) = ok (ekey (hd xs))"
    by (simp add: Key_def Node_Key_def NewIterator_def c x)
  have vc: "valid_cmp (keyCmp s)"
    using t by (simp add: Inv_def)
  have "sorted_wrt (\<lambda>x y. keyCmp s (ekey x) (ekey y) \<le> 0) (x # post)"
    using Inv_sorted [OF t] xs c by simp
  then have a5: "\<forall>z\<in>set xs. keyCmp s (ekey (hd xs)) (ekey z) \<le> 0"
    using cmp_refl [OF vc, of "ekey x"] by (simp add: c)
  have a6: "Size s = int (length xs)"
    using Inv_size [OF t] xs by simp
  have a7: "\<forall>pre x y post. xs = pre @ x # y # post \<longrightarrow>
          successor (heap s) (Some (fst x)) = ok (Some (fst y))
          \<and> presuccessor (heap s) (Some (fst y)) = ok (Some (fst x))"
  proof (intro allI impI)
    fix pre x y post
    assume e: "xs = pre @ x # y # post"
    then have n1: "nodes t = pre @ x # (y # post)" and n2: "nodes t = (pre @ [x]) @ y # post"
      using xs by simp_all
    from successor_Inv [OF t n1] presuccessor_Inv [OF t n2]
    show "successor (heap s) (Some (fst x)) = ok (Some (fst y))
          \<and> presuccessor (heap s) (Some (fst y)) = ok (Some (fst x))"
      by simp
  qed
  from a1 a2 a3 a4 a5 a6 a7 show ?thesis
    by (intro conjI)
qed

theorem next_then_prev_returns_to_first_witness:
  "InOrder tree1357 = Some [(0, 1, 10), (1, 3, 30), (2, 5, 50), (3, 7, 70)]
   \<and> IterFirst tree1357 = ok (NewIterator (Some 0))
   \<and> repeat_call 3 (Next (heap tree1357)) (NewIterator (Some 0)) = ok (NewIterator (Some 3))
   \<and> repeat_call 3 (Prev (heap tree1357)) (NewIterator (Some 3)) = ok (NewIterator (Some 0))
   \<and> Key (heap tree1357) (NewIterator (Some 0)) = ok 1
   \<and> Size tree1357 = 4"
proof -
  have n: "Suc (Suc (Suc 0)) = 3" by simp
  from next_then_prev_returns_to_first [OF reachable_tree1357 InOrder_tree1357]
  show ?thesis
    by (simp add: InOrder_tree1357 n del: repeat_call.simps)
qed

section \<open>Inserting keys and deleting them all\<close>











end
